theory Spec2Isabelle
  imports Complex_Main
begin

section \<open>Data model\<close>

text \<open>
  The rocket application keeps three tables: \<open>Rocket\<close> (one row per channel),
  \<open>Message\<close> (the audit log of processed messages) and \<open>BufferedMessage\<close> (messages
  that arrived ahead of their turn). The embedding follows
  \<^verbatim>\<open>message-processor.service.ts\<close> and the three repositories.

  A \<open>Date\<close> is its epoch value, a JS number that holds a message number or a speed is an
  \<open>int\<close>. A message type and its payload are one tagged value; \<open>UnknownMessage\<close> stands for
  any type string outside the \<open>MessageType\<close> enum, which reaches the \<open>default\<close> branch of
  \<open>applyStateChange\<close>. Columns the database generates (\<open>createdAt\<close>, \<open>updatedAt\<close>,
  \<open>bufferedAt\<close>, and the ids, which the processor only uses to delete the buffered row it has
  just read) are left out; a row of the message tables is identified by its unique key
  (channel, messageNumber), and \<open>JSON.parse (JSON.stringify payload)\<close> is the payload.

  A repository call fails on a violated unique constraint or a missing row and succeeds
  otherwise: an outage of the database is outside the model.
\<close>

type_synonym timestamp = int

datatype RocketStatus = ACTIVE | EXPLODED

datatype MessagePayload =
    RocketLaunched string int string
  | RocketSpeedIncreased int
  | RocketSpeedDecreased int
  | RocketExploded string
  | RocketMissionChanged string
  | UnknownMessage string

record Rocket =
  channel :: string
  rocketType :: string
  currentSpeed :: int
  mission :: string
  status :: RocketStatus
  explosionReason :: "string option"
  lastMessageNumber :: int
  lastMessageTime :: timestamp

record UpdateRocketData =
  setCurrentSpeed :: "int option"
  setMission :: "string option"
  setStatus :: "RocketStatus option"
  setExplosionReason :: "string option option"
  setLastMessageNumber :: "int option"
  setLastMessageTime :: "timestamp option"

record IncomingMessage =
  msgChannel :: string
  messageNumber :: int
  messageTime :: timestamp
  message :: MessagePayload

record Database =
  rockets :: "Rocket list"
  messages :: "IncomingMessage list"
  bufferedMessages :: "IncomingMessage list"

datatype error =
    RocketNotFound string
  | UnknownMessageType string
  | UniqueConstraint
  | RecordNotFound

section \<open>Repositories\<close>

definition hasKey :: "string \<Rightarrow> int \<Rightarrow> IncomingMessage \<Rightarrow> bool" where
  "hasKey c n m = (msgChannel m = c \<and> messageNumber m = n)"

definition rocketFindByChannel :: "Rocket list \<Rightarrow> string \<Rightarrow> Rocket option" where
  "rocketFindByChannel rs c = find (\<lambda>r. channel r = c) rs"

definition rocketCreate :: "Database \<Rightarrow> Rocket \<Rightarrow> error + (Database \<times> Rocket)" where
  "rocketCreate db r =
     (case rocketFindByChannel (rockets db) (channel r) of
        Some x \<Rightarrow> Inl UniqueConstraint
      | None \<Rightarrow> Inr (db\<lparr>rockets := rockets db @ [r]\<rparr>, r))"

definition applyUpdate :: "UpdateRocketData \<Rightarrow> Rocket \<Rightarrow> Rocket" where
  "applyUpdate d r =
     r\<lparr>currentSpeed := (case setCurrentSpeed d of None \<Rightarrow> currentSpeed r | Some v \<Rightarrow> v),
       mission := (case setMission d of None \<Rightarrow> mission r | Some v \<Rightarrow> v),
       status := (case setStatus d of None \<Rightarrow> status r | Some v \<Rightarrow> v),
       explosionReason := (case setExplosionReason d of None \<Rightarrow> explosionReason r | Some v \<Rightarrow> v),
       lastMessageNumber := (case setLastMessageNumber d of None \<Rightarrow> lastMessageNumber r | Some v \<Rightarrow> v),
       lastMessageTime := (case setLastMessageTime d of None \<Rightarrow> lastMessageTime r | Some v \<Rightarrow> v)\<rparr>"

definition noUpdate :: UpdateRocketData where
  "noUpdate = \<lparr>setCurrentSpeed = None, setMission = None, setStatus = None,
     setExplosionReason = None, setLastMessageNumber = None, setLastMessageTime = None\<rparr>"

definition rocketUpdate :: "Database \<Rightarrow> string \<Rightarrow> UpdateRocketData \<Rightarrow> error + (Database \<times> Rocket)" where
  "rocketUpdate db c d =
     (case rocketFindByChannel (rockets db) c of
        None \<Rightarrow> Inl RecordNotFound
      | Some r \<Rightarrow>
          Inr (db\<lparr>rockets := map (\<lambda>x. if channel x = c then applyUpdate d x else x) (rockets db)\<rparr>,
               applyUpdate d r))"

definition messageFindUnique :: "IncomingMessage list \<Rightarrow> string \<Rightarrow> int \<Rightarrow> IncomingMessage option" where
  "messageFindUnique ms c n = find (hasKey c n) ms"

definition messageCreate :: "Database \<Rightarrow> IncomingMessage \<Rightarrow> error + Database" where
  "messageCreate db m =
     (case messageFindUnique (messages db) (msgChannel m) (messageNumber m) of
        Some x \<Rightarrow> Inl UniqueConstraint
      | None \<Rightarrow> Inr (db\<lparr>messages := messages db @ [m]\<rparr>))"

definition bufferedFindUnique :: "IncomingMessage list \<Rightarrow> string \<Rightarrow> int \<Rightarrow> IncomingMessage option" where
  "bufferedFindUnique bs c n = find (hasKey c n) bs"

definition bufferedCreate :: "Database \<Rightarrow> IncomingMessage \<Rightarrow> error + Database" where
  "bufferedCreate db m =
     (case bufferedFindUnique (bufferedMessages db) (msgChannel m) (messageNumber m) of
        Some x \<Rightarrow> Inl UniqueConstraint
      | None \<Rightarrow> Inr (db\<lparr>bufferedMessages := bufferedMessages db @ [m]\<rparr>))"

definition bufferedDelete :: "Database \<Rightarrow> IncomingMessage \<Rightarrow> error + Database" where
  "bufferedDelete db b =
     (case bufferedFindUnique (bufferedMessages db) (msgChannel b) (messageNumber b) of
        None \<Rightarrow> Inl RecordNotFound
      | Some x \<Rightarrow>
          Inr (db\<lparr>bufferedMessages :=
                 filter (\<lambda>y. \<not> hasKey (msgChannel b) (messageNumber b) y) (bufferedMessages db)\<rparr>))"

section \<open>The message processor\<close>

definition ensureRocket :: "string \<Rightarrow> Rocket option \<Rightarrow> error + Rocket" where
  "ensureRocket c r = (case r of None \<Rightarrow> Inl (RocketNotFound c) | Some x \<Rightarrow> Inr x)"

definition applyStateChange ::
    "Database \<Rightarrow> Rocket option \<Rightarrow> IncomingMessage \<Rightarrow> error + (Database \<times> Rocket)" where
  "applyStateChange db rocket im =
     (case message im of
        RocketLaunched ty launchSpeed mis \<Rightarrow>
          (case rocket of
             Some r \<Rightarrow> Inr (db, r)
           | None \<Rightarrow>
               rocketCreate db
                 \<lparr>channel = msgChannel im, rocketType = ty, currentSpeed = launchSpeed,
                  mission = mis, status = ACTIVE, explosionReason = None,
                  lastMessageNumber = messageNumber im, lastMessageTime = messageTime im\<rparr>)
      | RocketSpeedIncreased by \<Rightarrow>
          (case ensureRocket (msgChannel im) rocket of
             Inl e \<Rightarrow> Inl e
           | Inr existingRocket \<Rightarrow>
               if status existingRocket = EXPLODED then Inr (db, existingRocket)
               else rocketUpdate db (msgChannel im)
                      (noUpdate\<lparr>setCurrentSpeed := Some (currentSpeed existingRocket + by),
                                setLastMessageNumber := Some (messageNumber im),
                                setLastMessageTime := Some (messageTime im)\<rparr>))
      | RocketSpeedDecreased by \<Rightarrow>
          (case ensureRocket (msgChannel im) rocket of
             Inl e \<Rightarrow> Inl e
           | Inr existingRocket \<Rightarrow>
               if status existingRocket = EXPLODED then Inr (db, existingRocket)
               else rocketUpdate db (msgChannel im)
                      (noUpdate\<lparr>setCurrentSpeed := Some (max 0 (currentSpeed existingRocket - by)),
                                setLastMessageNumber := Some (messageNumber im),
                                setLastMessageTime := Some (messageTime im)\<rparr>))
      | RocketExploded reason \<Rightarrow>
          (case ensureRocket (msgChannel im) rocket of
             Inl e \<Rightarrow> Inl e
           | Inr existingRocket \<Rightarrow>
               rocketUpdate db (msgChannel im)
                 (noUpdate\<lparr>setStatus := Some EXPLODED,
                           setExplosionReason := Some (Some reason),
                           setCurrentSpeed := Some 0,
                           setLastMessageNumber := Some (messageNumber im),
                           setLastMessageTime := Some (messageTime im)\<rparr>))
      | RocketMissionChanged newMission \<Rightarrow>
          (case ensureRocket (msgChannel im) rocket of
             Inl e \<Rightarrow> Inl e
           | Inr existingRocket \<Rightarrow>
               if status existingRocket = EXPLODED then Inr (db, existingRocket)
               else rocketUpdate db (msgChannel im)
                      (noUpdate\<lparr>setMission := Some newMission,
                                setLastMessageNumber := Some (messageNumber im),
                                setLastMessageTime := Some (messageTime im)\<rparr>))
      | UnknownMessage t \<Rightarrow> Inl (UnknownMessageType t))"

text \<open>
  \<open>processBufferedMessages\<close> is the recursive drain. Its whole body sits in a
  \<open>try\<close>/\<open>catch\<close> that logs and does not rethrow: an exception ends the drain and leaves
  the writes made so far, so the function returns a database and no error.
\<close>

function processBufferedMessages :: "Database \<Rightarrow> string \<Rightarrow> int \<Rightarrow> Database" where
  "processBufferedMessages db c expectedMessageNumber =
     (case bufferedFindUnique (bufferedMessages db) c expectedMessageNumber of
        None \<Rightarrow> db
      | Some buffered \<Rightarrow>
          (case rocketFindByChannel (rockets db) c of
             None \<Rightarrow>
               (case bufferedDelete db buffered of Inl e \<Rightarrow> db | Inr db' \<Rightarrow> db')
           | Some rocket \<Rightarrow>
               (case applyStateChange db (Some rocket) buffered of
                  Inl e \<Rightarrow> db
                | Inr (db1, updatedRocket) \<Rightarrow>
                    (case messageCreate db1 buffered of
                       Inl e \<Rightarrow> db1
                     | Inr db2 \<Rightarrow>
                         (case bufferedDelete db2 buffered of
                            Inl e \<Rightarrow> db2
                          | Inr db3 \<Rightarrow> processBufferedMessages db3 c (expectedMessageNumber + 1))))))"
  by pat_completeness auto
termination
proof (relation "measure (\<lambda>(db, c, n). length (bufferedMessages db))", goal_cases)
  case 1
  show ?case by simp
next
  case (2 db c n buffered rocket res db1 updatedRocket db2 db3)
  have "applyStateChange db (Some rocket) buffered = Inr (db1, updatedRocket)"
    using 2 by simp
  then have b1: "bufferedMessages db1 = bufferedMessages db"
    by (auto simp: applyStateChange_def rocketCreate_def rocketUpdate_def ensureRocket_def
        split: MessagePayload.splits option.splits if_splits)
  have b2: "bufferedMessages db2 = bufferedMessages db1"
    using \<open>messageCreate db1 buffered = Inr db2\<close>
    by (auto simp: messageCreate_def split: option.splits)
  from \<open>bufferedDelete db2 buffered = Inr db3\<close>
  obtain x where x: "find (hasKey (msgChannel buffered) (messageNumber buffered)) (bufferedMessages db2) = Some x"
    and db3: "bufferedMessages db3 =
        filter (\<lambda>y. \<not> hasKey (msgChannel buffered) (messageNumber buffered) y) (bufferedMessages db2)"
    by (auto simp: bufferedDelete_def bufferedFindUnique_def split: option.splits)
  from x obtain i where "i < length (bufferedMessages db2)"
    "hasKey (msgChannel buffered) (messageNumber buffered) (bufferedMessages db2 ! i)"
    unfolding find_Some_iff by blast
  then have "length (bufferedMessages db3) < length (bufferedMessages db2)"
    unfolding db3 by (intro length_filter_less[where x = "bufferedMessages db2 ! i"]) auto
  with b1 b2 show ?case by simp
qed

text \<open>
  \<open>processMessage\<close> returns the database it leaves behind and the exception it throws,
  if any (\<open>None\<close> is a normal return).
\<close>

definition applyAndDrain :: "Database \<Rightarrow> Rocket option \<Rightarrow> IncomingMessage \<Rightarrow> Database \<times> error option" where
  "applyAndDrain db rocket im =
     (case applyStateChange db rocket im of
        Inl e \<Rightarrow> (db, Some e)
      | Inr (db1, r) \<Rightarrow>
          (case messageCreate db1 im of
             Inl e \<Rightarrow> (db1, Some e)
           | Inr db2 \<Rightarrow>
               (processBufferedMessages db2 (msgChannel im) (messageNumber im + 1), None)))"

definition processMessage :: "Database \<Rightarrow> IncomingMessage \<Rightarrow> Database \<times> error option" where
  "processMessage db im =
     (case messageFindUnique (messages db) (msgChannel im) (messageNumber im) of
        Some existingMessage \<Rightarrow> (db, None)
      | None \<Rightarrow>
          (case bufferedFindUnique (bufferedMessages db) (msgChannel im) (messageNumber im) of
             Some bufferedDuplicate \<Rightarrow> (db, None)
           | None \<Rightarrow>
               (case rocketFindByChannel (rockets db) (msgChannel im) of
                  Some rocket \<Rightarrow>
                    if messageNumber im < lastMessageNumber rocket then
                      (case messageCreate db im of
                         Inl e \<Rightarrow> (db, Some e)
                       | Inr db' \<Rightarrow> (db', None))
                    else if messageNumber im > lastMessageNumber rocket + 1 then
                      (case bufferedCreate db im of
                         Inl e \<Rightarrow> (db, Some e)
                       | Inr db' \<Rightarrow> (db', None))
                    else applyAndDrain db (Some rocket) im
                | None \<Rightarrow> applyAndDrain db None im)))"

text \<open>
  The state change that \<open>applyStateChange\<close> writes for a rocket that exists, read off its
  five cases: the row it returns. A launch for an existing rocket and the three guarded
  cases on an exploded rocket return the row as it is.
\<close>

definition nextRocket :: "Rocket \<Rightarrow> IncomingMessage \<Rightarrow> Rocket" where
  "nextRocket r im =
     (case message im of
        RocketLaunched ty launchSpeed mis \<Rightarrow> r
      | RocketSpeedIncreased by \<Rightarrow>
          if status r = EXPLODED then r
          else r\<lparr>currentSpeed := currentSpeed r + by,
                 lastMessageNumber := messageNumber im, lastMessageTime := messageTime im\<rparr>
      | RocketSpeedDecreased by \<Rightarrow>
          if status r = EXPLODED then r
          else r\<lparr>currentSpeed := max 0 (currentSpeed r - by),
                 lastMessageNumber := messageNumber im, lastMessageTime := messageTime im\<rparr>
      | RocketExploded reason \<Rightarrow>
          r\<lparr>currentSpeed := 0, status := EXPLODED, explosionReason := Some reason,
            lastMessageNumber := messageNumber im, lastMessageTime := messageTime im\<rparr>
      | RocketMissionChanged newMission \<Rightarrow>
          if status r = EXPLODED then r
          else r\<lparr>mission := newMission,
                 lastMessageNumber := messageNumber im, lastMessageTime := messageTime im\<rparr>
      | UnknownMessage t \<Rightarrow> r)"

definition knownType :: "IncomingMessage \<Rightarrow> bool" where
  "knownType im = (case message im of UnknownMessage t \<Rightarrow> False | _ \<Rightarrow> True)"

section \<open>Statistics\<close>

text \<open>
  \<open>RocketService.getRocketStatistics\<close> and the two repository queries it uses. A \<open>where\<close>
  argument is absent or a status filter. Prisma's \<open>_avg\<close> aggregate is \<open>null\<close> on no rows;
  on the rows it selects it returns the database's average of the column, a double. That
  number is not computed here: \<open>dbAvg\<close>, a parameter, stands for the database's average of
  a non-empty column of speeds, read as the real number the double denotes. \<open>Math.round\<close>
  returns the integer nearest to its argument and rounds a half upwards.
\<close>

definition matchesWhere :: "RocketStatus option \<Rightarrow> Rocket \<Rightarrow> bool" where
  "matchesWhere w r = (case w of None \<Rightarrow> True | Some s \<Rightarrow> status r = s)"

definition rocketCount :: "Rocket list \<Rightarrow> RocketStatus option \<Rightarrow> nat" where
  "rocketCount rs w = length (filter (matchesWhere w) rs)"

definition aggregateAvg ::
    "(int list \<Rightarrow> real) \<Rightarrow> Rocket list \<Rightarrow> RocketStatus option \<Rightarrow> real option" where
  "aggregateAvg dbAvg rs w =
     (let sel = filter (matchesWhere w) rs
      in if sel = [] then None else Some (dbAvg (map currentSpeed sel)))"

definition getAverageSpeed ::
    "(int list \<Rightarrow> real) \<Rightarrow> Rocket list \<Rightarrow> RocketStatus option \<Rightarrow> real" where
  "getAverageSpeed dbAvg rs w =
     (case aggregateAvg dbAvg rs w of None \<Rightarrow> 0 | Some a \<Rightarrow> if a = 0 then 0 else a)"

definition mathRound :: "real \<Rightarrow> int" where
  "mathRound x = \<lfloor>x + 1 / 2\<rfloor>"

record Statistics =
  total :: nat
  active :: nat
  exploded :: nat
  averageSpeed :: int

definition getRocketStatistics :: "(int list \<Rightarrow> real) \<Rightarrow> Rocket list \<Rightarrow> Statistics" where
  "getRocketStatistics dbAvg rs =
     \<lparr>total = rocketCount rs None,
      active = rocketCount rs (Some ACTIVE),
      exploded = rocketCount rs (Some EXPLODED),
      averageSpeed = mathRound (getAverageSpeed dbAvg rs (Some ACTIVE))\<rparr>"

text \<open>
  \<open>exactMean\<close> is the mean of a column as a real number; the database's double agrees with
  it when the quotient is representable, as in the sample data.
\<close>

definition exactMean :: "int list \<Rightarrow> real" where
  "exactMean vs = of_int (sum_list vs) / of_nat (length vs)"

section \<open>Sample data\<close>

definition sampleRocket :: Rocket where
  "sampleRocket =
     \<lparr>channel = ''ch1'', rocketType = ''Falcon-9'', currentSpeed = 500, mission = ''ARTEMIS'',
      status = ACTIVE, explosionReason = None, lastMessageNumber = 1, lastMessageTime = 100\<rparr>"

definition explodedRocket :: Rocket where
  "explodedRocket =
     sampleRocket\<lparr>currentSpeed := 0, status := EXPLODED,
       explosionReason := Some ''PRESSURE_VESSEL_FAILURE'', lastMessageNumber := 5\<rparr>"

definition emptyDb :: Database where
  "emptyDb = \<lparr>rockets = [], messages = [], bufferedMessages = []\<rparr>"

definition sampleDb :: Database where
  "sampleDb = \<lparr>rockets = [sampleRocket], messages = [], bufferedMessages = []\<rparr>"

definition explodedDb :: Database where
  "explodedDb = \<lparr>rockets = [explodedRocket], messages = [], bufferedMessages = []\<rparr>"

definition mkMessage :: "int \<Rightarrow> MessagePayload \<Rightarrow> IncomingMessage" where
  "mkMessage n p = \<lparr>msgChannel = ''ch1'', messageNumber = n, messageTime = 100 + n, message = p\<rparr>"

section \<open>Submitting a sequence of messages\<close>

text \<open>
  The sender posts one message after the other; a request that fails (an exception of
  \<open>processMessage\<close>) is answered with an error and the next request meets the database as
  the failed one left it.
\<close>

fun submitAll :: "Database \<Rightarrow> IncomingMessage list \<Rightarrow> Database" where
  "submitAll db [] = db"
| "submitAll db (im # ims) = submitAll (fst (processMessage db im)) ims"

text \<open>
  \<open>newRocket\<close> is the row that the launch case of \<open>applyStateChange\<close> passes to
  \<open>rocketRepository.create\<close>. \<open>isUpdate\<close> holds for the four message types that need an
  existing rocket, \<open>isExplosion\<close> for \<open>RocketExploded\<close>.
\<close>

definition newRocket :: "IncomingMessage \<Rightarrow> string \<Rightarrow> int \<Rightarrow> string \<Rightarrow> Rocket" where
  "newRocket im ty launchSpeed mis =
     \<lparr>channel = msgChannel im, rocketType = ty, currentSpeed = launchSpeed,
      mission = mis, status = ACTIVE, explosionReason = None,
      lastMessageNumber = messageNumber im, lastMessageTime = messageTime im\<rparr>"

definition isExplosion :: "IncomingMessage \<Rightarrow> bool" where
  "isExplosion im = (case message im of RocketExploded reason \<Rightarrow> True | _ \<Rightarrow> False)"

definition isUpdate :: "IncomingMessage \<Rightarrow> bool" where
  "isUpdate im =
     (case message im of
        RocketLaunched ty launchSpeed mis \<Rightarrow> False
      | UnknownMessage t \<Rightarrow> False
      | _ \<Rightarrow> True)"

text \<open>
  For the reordering property. \<open>rocketAfter ev r0 k\<close> is the rocket after the state changes
  of messages \<open>2..k\<close> in ascending order. \<open>ignoredAt ev j\<close> says that message \<open>j\<close>, applied
  after the messages before it, takes one of the branches of \<open>applyStateChange\<close> that return
  the rocket as it is: it is a further launch, or it is no explosion and an explosion
  precedes it. \<open>eventsOk\<close> says that message \<open>n\<close> of the channel carries number \<open>n\<close>, that
  messages \<open>2..N\<close> are updates and that only explosions follow an explosion, so that none
  of them is ignored; it describes the messages before the first ignored one.
  \<open>effectiveUpTo ev r0 N L\<close> says that in ascending order each of the
  messages up to \<open>L\<close> advances \<open>lastMessageNumber\<close> and none after \<open>L\<close> changes the rocket.
  \<open>channelInv\<close> describes the channel's rows once messages \<open>1..m\<close> are applied and the
  messages numbered in \<open>B\<close> wait in the buffer.
\<close>

definition rocketAfter :: "(int \<Rightarrow> IncomingMessage) \<Rightarrow> Rocket \<Rightarrow> int \<Rightarrow> Rocket" where
  "rocketAfter ev r0 k = foldl nextRocket r0 (map ev [2..k])"

definition isLaunch :: "IncomingMessage \<Rightarrow> bool" where
  "isLaunch im = (case message im of RocketLaunched ty launchSpeed mis \<Rightarrow> True | _ \<Rightarrow> False)"

definition ignoredAt :: "(int \<Rightarrow> IncomingMessage) \<Rightarrow> int \<Rightarrow> bool" where
  "ignoredAt ev j =
     (isLaunch (ev j) \<or> (\<not> isExplosion (ev j) \<and> (\<exists>i \<in> {2..<j}. isExplosion (ev i))))"

definition eventsOk :: "(int \<Rightarrow> IncomingMessage) \<Rightarrow> string \<Rightarrow> int \<Rightarrow> bool" where
  "eventsOk ev c N =
     ((\<forall>n. msgChannel (ev n) = c \<and> messageNumber (ev n) = n)
      \<and> (\<forall>n. 2 \<le> n \<and> n \<le> N \<longrightarrow> isUpdate (ev n))
      \<and> (\<forall>i j. 2 \<le> i \<and> i < j \<and> j \<le> N \<and> isExplosion (ev i) \<longrightarrow> isExplosion (ev j)))"

definition effectiveUpTo :: "(int \<Rightarrow> IncomingMessage) \<Rightarrow> Rocket \<Rightarrow> int \<Rightarrow> int \<Rightarrow> bool" where
  "effectiveUpTo ev r0 N L =
     (1 \<le> L \<and> L \<le> N
      \<and> (\<forall>k. 1 \<le> k \<and> k \<le> L \<longrightarrow> lastMessageNumber (rocketAfter ev r0 k) = k)
      \<and> (\<forall>k. L \<le> k \<and> k \<le> N \<longrightarrow> rocketAfter ev r0 k = rocketAfter ev r0 L))"

definition channelInv ::
    "(int \<Rightarrow> IncomingMessage) \<Rightarrow> Rocket \<Rightarrow> string \<Rightarrow> int \<Rightarrow> int \<Rightarrow> Database \<Rightarrow> int \<Rightarrow> int set \<Rightarrow> bool" where
  "channelInv ev r0 c N L db m B =
     (1 \<le> m \<and> m \<le> N
      \<and> rocketFindByChannel (rockets db) c = Some (rocketAfter ev r0 m)
      \<and> (\<forall>n. m < n \<longrightarrow> messageFindUnique (messages db) c n = None)
      \<and> (\<forall>n. bufferedFindUnique (bufferedMessages db) c n = (if n \<in> B then Some (ev n) else None))
      \<and> B \<subseteq> {m + 1..N}
      \<and> (m \<le> L \<longrightarrow> m + 1 \<notin> B))"

text \<open>
  Two properties of the buffer that every \<open>processMessage\<close> call preserves: no buffered row
  has an audit row for its key, and every buffered row has a message type of the enum.
\<close>

definition keysDisjoint :: "Database \<Rightarrow> bool" where
  "keysDisjoint db =
     (\<forall>b \<in> set (bufferedMessages db).
        messageFindUnique (messages db) (msgChannel b) (messageNumber b) = None)"

definition bufferedKnown :: "Database \<Rightarrow> bool" where
  "bufferedKnown db = (\<forall>b \<in> set (bufferedMessages db). knownType b)"

definition samplePayload :: "int \<Rightarrow> MessagePayload" where
  "samplePayload n =
     (if n = 1 then RocketLaunched ''Falcon-9'' 500 ''ARTEMIS''
      else if n = 2 then RocketSpeedIncreased 500
      else if n = 3 then RocketExploded ''PRESSURE_VESSEL_FAILURE''
      else RocketSpeedDecreased 200)"

section \<open>Facts about the repositories\<close>

declare processBufferedMessages.simps [simp del]

lemmas repo_defs = rocketFindByChannel_def rocketCreate_def rocketUpdate_def applyUpdate_def noUpdate_def
  messageFindUnique_def messageCreate_def bufferedFindUnique_def bufferedCreate_def bufferedDelete_def
  ensureRocket_def hasKey_def

lemmas sample_defs = sampleRocket_def explodedRocket_def emptyDb_def sampleDb_def explodedDb_def mkMessage_def
lemmas run_defs = processMessage_def applyAndDrain_def applyStateChange_def processBufferedMessages.simps
  repo_defs

lemma find_SomeD: "find P xs = Some x \<Longrightarrow> P x \<and> x \<in> set xs"
  by (induction xs) (auto split: if_splits)

lemma find_append_new:
  "find P xs = None \<Longrightarrow> find P (xs @ [x]) = (if P x then Some x else None)"
  by (induction xs) (auto split: if_splits)

lemma find_append_old:
  "find P xs = Some y \<Longrightarrow> find P (xs @ zs) = Some y"
  by (induction xs) (auto split: if_splits)

lemma find_append_none:
  "find P xs = None \<Longrightarrow> find P ys = None \<Longrightarrow> find P (xs @ ys) = None"
  by (auto simp: find_None_iff)

lemma find_filter_keep:
  "(\<And>x. P x \<Longrightarrow> Q x) \<Longrightarrow> find P (filter Q xs) = find P xs"
  by (induction xs) auto

lemma findUnique_key:
  "find (hasKey c n) xs = Some b \<Longrightarrow> msgChannel b = c \<and> messageNumber b = n"
  using find_SomeD[of "hasKey c n" xs b] by (simp add: hasKey_def)

lemma channel_applyUpdate [simp]: "channel (applyUpdate d r) = channel r"
  by (simp add: applyUpdate_def)

lemma find_update_other:
  "c' \<noteq> c \<Longrightarrow>
   find (\<lambda>r. channel r = c') (map (\<lambda>x. if channel x = c then applyUpdate d x else x) rs)
     = find (\<lambda>r. channel r = c') rs"
  by (induction rs) auto

lemma find_update_hit:
  "find (\<lambda>r. channel r = c) rs = Some r \<Longrightarrow>
   find (\<lambda>r. channel r = c) (map (\<lambda>x. if channel x = c then applyUpdate d x else x) rs)
     = Some (applyUpdate d r)"
  by (induction rs) (auto split: if_splits)

lemma rocketUpdate_result:
  assumes "rocketFindByChannel (rockets db) c = Some r"
  shows "\<exists>db'. rocketUpdate db c d = Inr (db', applyUpdate d r)
     \<and> messages db' = messages db \<and> bufferedMessages db' = bufferedMessages db
     \<and> (\<forall>c'. rocketFindByChannel (rockets db') c' =
           (if c' = c then Some (applyUpdate d r) else rocketFindByChannel (rockets db) c'))"
  using assms find_update_hit[of c "rockets db" r d] find_update_other[of _ c d "rockets db"]
  by (auto simp: rocketUpdate_def rocketFindByChannel_def)

lemma messageCreate_fresh:
  "messageFindUnique (messages db) (msgChannel im) (messageNumber im) = None \<Longrightarrow>
   messageCreate db im = Inr (db\<lparr>messages := messages db @ [im]\<rparr>)"
  by (simp add: messageCreate_def)

lemma bufferedCreate_fresh:
  "bufferedFindUnique (bufferedMessages db) (msgChannel im) (messageNumber im) = None \<Longrightarrow>
   bufferedCreate db im = Inr (db\<lparr>bufferedMessages := bufferedMessages db @ [im]\<rparr>)"
  by (simp add: bufferedCreate_def)

lemma applyStateChange_tables:
  "applyStateChange db rocket im = Inr (db', r) \<Longrightarrow>
   messages db' = messages db \<and> bufferedMessages db' = bufferedMessages db"
  by (auto simp: applyStateChange_def rocketCreate_def rocketUpdate_def ensureRocket_def
      split: MessagePayload.splits option.splits if_splits)

section \<open>The state change of an existing rocket\<close>

text \<open>
  For a rocket that is stored under the message's channel, \<open>applyStateChange\<close> succeeds on
  every known message type, returns \<open>nextRocket\<close>, stores it under that channel and
  touches neither message table nor any other channel.
\<close>

lemma update_step:
  assumes "rocketFindByChannel (rockets db) (msgChannel im) = Some r"
    and "applyStateChange db (Some r) im = rocketUpdate db (msgChannel im) d"
    and "applyUpdate d r = nextRocket r im"
  shows "\<exists>db'. applyStateChange db (Some r) im = Inr (db', nextRocket r im)
     \<and> messages db' = messages db \<and> bufferedMessages db' = bufferedMessages db
     \<and> (\<forall>c'. rocketFindByChannel (rockets db') c' =
           (if c' = msgChannel im then Some (nextRocket r im) else rocketFindByChannel (rockets db) c'))"
proof -
  from rocketUpdate_result[OF assms(1), of d] obtain db' where
    "rocketUpdate db (msgChannel im) d = Inr (db', applyUpdate d r)"
    "messages db' = messages db" "bufferedMessages db' = bufferedMessages db"
    "\<forall>c'. rocketFindByChannel (rockets db') c' =
           (if c' = msgChannel im then Some (applyUpdate d r) else rocketFindByChannel (rockets db) c')"
    by blast
  then show ?thesis
    unfolding assms(2) assms(3) by (intro exI[of _ db']) simp
qed

lemma applyStateChange_existing:
  assumes "rocketFindByChannel (rockets db) (msgChannel im) = Some r" and "knownType im"
  shows "\<exists>db'. applyStateChange db (Some r) im = Inr (db', nextRocket r im)
     \<and> messages db' = messages db \<and> bufferedMessages db' = bufferedMessages db
     \<and> (\<forall>c'. rocketFindByChannel (rockets db') c' =
           (if c' = msgChannel im then Some (nextRocket r im) else rocketFindByChannel (rockets db) c'))"
proof (cases "status r = EXPLODED \<and> (\<forall>reason. message im \<noteq> RocketExploded reason)
    \<or> (\<exists>ty sp mis. message im = RocketLaunched ty sp mis)")
  case True
  then have "applyStateChange db (Some r) im = Inr (db, r)" "nextRocket r im = r"
    using assms(2)
    by (auto simp: applyStateChange_def nextRocket_def ensureRocket_def knownType_def
        split: MessagePayload.splits)
  then show ?thesis using assms(1) by (intro exI[of _ db]) simp
next
  case False
  show ?thesis
  proof (cases "message im")
    case (RocketLaunched ty sp mis)
    then show ?thesis using False by simp
  next
    case (RocketSpeedIncreased amount)
    show ?thesis
      by (rule update_step[OF assms(1)])
        (use False RocketSpeedIncreased in
          \<open>auto simp: applyStateChange_def ensureRocket_def applyUpdate_def noUpdate_def nextRocket_def\<close>)
  next
    case (RocketSpeedDecreased amount)
    show ?thesis
      by (rule update_step[OF assms(1)])
        (use False RocketSpeedDecreased in
          \<open>auto simp: applyStateChange_def ensureRocket_def applyUpdate_def noUpdate_def nextRocket_def\<close>)
  next
    case (RocketExploded reason)
    show ?thesis
      by (rule update_step[OF assms(1)])
        (use False RocketExploded in
          \<open>auto simp: applyStateChange_def ensureRocket_def applyUpdate_def noUpdate_def nextRocket_def\<close>)
  next
    case (RocketMissionChanged newMission)
    show ?thesis
      by (rule update_step[OF assms(1)])
        (use False RocketMissionChanged in
          \<open>auto simp: applyStateChange_def ensureRocket_def applyUpdate_def noUpdate_def nextRocket_def\<close>)
  next
    case (UnknownMessage t)
    then show ?thesis using assms by (simp add: knownType_def)
  qed
qed

section \<open>The drain\<close>

text \<open>
  Audit rows survive the drain. One step of the drain on a buffered row of known type
  without an audit row, with the rocket stored, applies the row, appends its audit row,
  deletes it from the buffer and goes on with the next number; \<open>drain_run\<close> follows the
  drain along a run of such rows up to the first missing number.
\<close>

lemma drain_keeps_messages:
  "messageFindUnique (messages db) c' k = Some y \<Longrightarrow>
   messageFindUnique (messages (processBufferedMessages db c n)) c' k = Some y"
proof (induction db c n rule: processBufferedMessages.induct)
  case (1 db c n)
  show ?case
  proof (cases "bufferedFindUnique (bufferedMessages db) c n")
    case None
    then show ?thesis using 1 by (simp add: processBufferedMessages.simps)
  next
    case (Some b)
    show ?thesis
    proof (cases "rocketFindByChannel (rockets db) c")
      case None
      then show ?thesis using 1(2) Some
        by (auto simp: processBufferedMessages.simps bufferedDelete_def split: option.splits)
    next
      case (Some rocket)
      note rk = Some
      show ?thesis
      proof (cases "applyStateChange db (Some rocket) b")
        case (Inl e)
        then show ?thesis using 1(2) rk \<open>bufferedFindUnique (bufferedMessages db) c n = Some b\<close>
          by (simp add: processBufferedMessages.simps)
      next
        case (Inr p)
        obtain db1 r1 where p: "p = (db1, r1)" by (cases p)
        have m1: "messages db1 = messages db"
          using Inr p by (auto simp: applyStateChange_def rocketCreate_def rocketUpdate_def ensureRocket_def
              split: MessagePayload.splits option.splits if_splits)
        show ?thesis
        proof (cases "messageCreate db1 b")
          case (Inl e)
          then show ?thesis using 1(2) rk \<open>bufferedFindUnique (bufferedMessages db) c n = Some b\<close> Inr p m1
            by (simp add: processBufferedMessages.simps)
        next
          case (Inr db2)
          note mc = Inr
          have m2: "messageFindUnique (messages db2) c' k = Some y"
            using mc 1(2) m1 find_append_old[of "hasKey c' k" "messages db" y "[b]"]
            by (auto simp: messageCreate_def messageFindUnique_def split: option.splits)
          show ?thesis
          proof (cases "bufferedDelete db2 b")
            case (Inl e)
            then show ?thesis using m2 rk \<open>bufferedFindUnique (bufferedMessages db) c n = Some b\<close>
                \<open>applyStateChange db (Some rocket) b = Inr p\<close> p mc
              by (simp add: processBufferedMessages.simps)
          next
            case (Inr db3)
            have m3: "messageFindUnique (messages db3) c' k = Some y"
              using Inr m2 by (auto simp: bufferedDelete_def split: option.splits)
            have "messageFindUnique (messages (processBufferedMessages db3 c (n + 1))) c' k = Some y"
              using 1(1)[OF \<open>bufferedFindUnique (bufferedMessages db) c n = Some b\<close> rk
                  \<open>applyStateChange db (Some rocket) b = Inr p\<close> p[symmetric] mc Inr m3] .
            then show ?thesis
              using rk \<open>bufferedFindUnique (bufferedMessages db) c n = Some b\<close>
                \<open>applyStateChange db (Some rocket) b = Inr p\<close> p mc Inr
              by (simp add: processBufferedMessages.simps)
          qed
        qed
      qed
    qed
  qed
qed

lemma drain_step:
  assumes b: "bufferedFindUnique (bufferedMessages db) c n = Some b"
    and known: "knownType b"
    and r: "rocketFindByChannel (rockets db) c = Some r"
    and fresh: "messageFindUnique (messages db) c n = None"
  shows "\<exists>db3. processBufferedMessages db c n = processBufferedMessages db3 c (n + 1)
     \<and> messages db3 = messages db @ [b]
     \<and> bufferedMessages db3 = filter (\<lambda>y. \<not> hasKey c n y) (bufferedMessages db)
     \<and> (\<forall>c'. rocketFindByChannel (rockets db3) c' =
           (if c' = c then Some (nextRocket r b) else rocketFindByChannel (rockets db) c'))"
proof -
  from b have key: "msgChannel b = c" "messageNumber b = n"
    using findUnique_key by (auto simp: bufferedFindUnique_def)
  from applyStateChange_existing[of db b r] r known key obtain db1 where
    a: "applyStateChange db (Some r) b = Inr (db1, nextRocket r b)"
    and m1: "messages db1 = messages db" and b1: "bufferedMessages db1 = bufferedMessages db"
    and r1: "\<forall>c'. rocketFindByChannel (rockets db1) c' =
           (if c' = c then Some (nextRocket r b) else rocketFindByChannel (rockets db) c')"
    by auto
  let ?db2 = "db1\<lparr>messages := messages db1 @ [b]\<rparr>"
  have mc: "messageCreate db1 b = Inr ?db2"
    using fresh m1 key by (simp add: messageCreate_def)
  let ?db3 = "?db2\<lparr>bufferedMessages := filter (\<lambda>y. \<not> hasKey c n y) (bufferedMessages ?db2)\<rparr>"
  have bd: "bufferedDelete ?db2 b = Inr ?db3"
    using b b1 key by (simp add: bufferedDelete_def)
  have "processBufferedMessages db c n = processBufferedMessages ?db3 c (n + 1)"
    by (subst processBufferedMessages.simps) (simp add: b r a mc bd)
  then show ?thesis
    using m1 b1 r1 by (intro exI[of _ ?db3]) simp
qed

lemma drain_run:
  assumes "rocketFindByChannel (rockets db) c = Some r"
    and "\<forall>i<length bs. bufferedFindUnique (bufferedMessages db) c (n + int i) = Some (bs ! i)
           \<and> knownType (bs ! i) \<and> messageFindUnique (messages db) c (n + int i) = None"
    and "bufferedFindUnique (bufferedMessages db) c (n + int (length bs)) = None"
  shows "messages (processBufferedMessages db c n) = messages db @ bs
     \<and> bufferedMessages (processBufferedMessages db c n) =
         filter (\<lambda>y. \<not> (msgChannel y = c \<and> n \<le> messageNumber y \<and> messageNumber y < n + int (length bs)))
           (bufferedMessages db)
     \<and> (\<forall>c'. rocketFindByChannel (rockets (processBufferedMessages db c n)) c' =
           (if c' = c then Some (foldl nextRocket r bs) else rocketFindByChannel (rockets db) c'))"
  using assms
proof (induction bs arbitrary: db n r)
  case Nil
  then have "processBufferedMessages db c n = db"
    by (subst processBufferedMessages.simps) simp
  moreover have "filter (\<lambda>y. \<not> (msgChannel y = c \<and> n \<le> messageNumber y \<and> messageNumber y < n))
      (bufferedMessages db) = bufferedMessages db"
    by (rule filter_True) auto
  ultimately show ?case using Nil by simp
next
  case (Cons b bs)
  from Cons.prems(2) have b0: "bufferedFindUnique (bufferedMessages db) c n = Some b"
    "knownType b" "messageFindUnique (messages db) c n = None"
    by force+
  from drain_step[OF b0(1) b0(2) Cons.prems(1) b0(3)] obtain db3 where
    step: "processBufferedMessages db c n = processBufferedMessages db3 c (n + 1)"
    and m3: "messages db3 = messages db @ [b]"
    and b3: "bufferedMessages db3 = filter (\<lambda>y. \<not> hasKey c n y) (bufferedMessages db)"
    and r3: "\<forall>c'. rocketFindByChannel (rockets db3) c' =
           (if c' = c then Some (nextRocket r b) else rocketFindByChannel (rockets db) c')"
    by blast
  from b0(1) have key: "msgChannel b = c" "messageNumber b = n"
    using findUnique_key by (auto simp: bufferedFindUnique_def)
  have other: "bufferedFindUnique (bufferedMessages db3) c k = bufferedFindUnique (bufferedMessages db) c k"
    if "k \<noteq> n" for k
    unfolding b3 bufferedFindUnique_def using that
    by (intro find_filter_keep) (auto simp: hasKey_def)
  have p1: "rocketFindByChannel (rockets db3) c = Some (nextRocket r b)" using r3 by simp
  have p2: "\<forall>i<length bs. bufferedFindUnique (bufferedMessages db3) c (n + 1 + int i) = Some (bs ! i)
           \<and> knownType (bs ! i) \<and> messageFindUnique (messages db3) c (n + 1 + int i) = None"
  proof (intro allI impI)
    fix i assume i: "i < length bs"
    then have "Suc i < length (b # bs)" by simp
    with Cons.prems(2) have
      "bufferedFindUnique (bufferedMessages db) c (n + int (Suc i)) = Some ((b # bs) ! Suc i)
           \<and> knownType ((b # bs) ! Suc i) \<and> messageFindUnique (messages db) c (n + int (Suc i)) = None"
      by blast
    moreover have "n + int (Suc i) = n + 1 + int i" by simp
    ultimately have h: "bufferedFindUnique (bufferedMessages db) c (n + 1 + int i) = Some (bs ! i)"
      "knownType (bs ! i)" "messageFindUnique (messages db) c (n + 1 + int i) = None"
      by (metis nth_Cons_Suc)+
    have "messageFindUnique (messages db3) c (n + 1 + int i) = None"
      using h(3) key find_append_new[of "hasKey c (n + 1 + int i)" "messages db" b]
      by (simp add: m3 messageFindUnique_def hasKey_def)
    then show "bufferedFindUnique (bufferedMessages db3) c (n + 1 + int i) = Some (bs ! i)
           \<and> knownType (bs ! i) \<and> messageFindUnique (messages db3) c (n + 1 + int i) = None"
      using h other[of "n + 1 + int i"] by simp
  qed
  have "n + int (length (b # bs)) = n + 1 + int (length bs)" by simp
  with Cons.prems(3) have "bufferedFindUnique (bufferedMessages db) c (n + 1 + int (length bs)) = None"
    by metis
  then have p3: "bufferedFindUnique (bufferedMessages db3) c (n + 1 + int (length bs)) = None"
    using other[of "n + 1 + int (length bs)"] by simp
  note IH = Cons.IH[OF p1 p2 p3]
  have f: "filter (\<lambda>y. \<not> (msgChannel y = c \<and> n + 1 \<le> messageNumber y
              \<and> messageNumber y < n + 1 + int (length bs))) (bufferedMessages db3)
      = filter (\<lambda>y. \<not> (msgChannel y = c \<and> n \<le> messageNumber y
              \<and> messageNumber y < n + int (length (b # bs)))) (bufferedMessages db)"
    unfolding b3 filter_filter by (rule filter_cong) (auto simp: hasKey_def)
  from IH have i1: "messages (processBufferedMessages db3 c (n + 1)) = messages db3 @ bs"
    and i2: "bufferedMessages (processBufferedMessages db3 c (n + 1)) =
         filter (\<lambda>y. \<not> (msgChannel y = c \<and> n + 1 \<le> messageNumber y
              \<and> messageNumber y < n + 1 + int (length bs))) (bufferedMessages db3)"
    and i3: "\<forall>c'. rocketFindByChannel (rockets (processBufferedMessages db3 c (n + 1))) c' =
           (if c' = c then Some (foldl nextRocket (nextRocket r b) bs)
            else rocketFindByChannel (rockets db3) c')"
    by blast+
  show ?case
    unfolding step
  proof (intro conjI)
    show "messages (processBufferedMessages db3 c (n + 1)) = messages db @ b # bs"
      using i1 m3 by simp
    show "bufferedMessages (processBufferedMessages db3 c (n + 1)) =
        filter (\<lambda>y. \<not> (msgChannel y = c \<and> n \<le> messageNumber y
              \<and> messageNumber y < n + int (length (b # bs)))) (bufferedMessages db)"
      by (simp only: i2 f)
    show "\<forall>c'. rocketFindByChannel (rockets (processBufferedMessages db3 c (n + 1))) c' =
           (if c' = c then Some (foldl nextRocket r (b # bs)) else rocketFindByChannel (rockets db) c')"
      using i3 r3 by simp
  qed
qed

section \<open>Invariants of the buffer\<close>

text \<open>
  \<open>keysDisjoint\<close> and \<open>bufferedKnown\<close> hold in the empty database and after every
  \<open>processMessage\<close> call on a message of known type.
\<close>

lemma keysDisjoint_audit:
  assumes "keysDisjoint db"
    and "bufferedFindUnique (bufferedMessages db) (msgChannel im) (messageNumber im) = None"
  shows "keysDisjoint (db\<lparr>messages := messages db @ [im]\<rparr>)"
  unfolding keysDisjoint_def
proof
  fix b assume b: "b \<in> set (bufferedMessages (db\<lparr>messages := messages db @ [im]\<rparr>))"
  then have old: "find (hasKey (msgChannel b) (messageNumber b)) (messages db) = None"
    using assms(1) by (simp add: keysDisjoint_def messageFindUnique_def)
  have "\<not> hasKey (msgChannel b) (messageNumber b) im"
  proof
    assume "hasKey (msgChannel b) (messageNumber b) im"
    then have "hasKey (msgChannel im) (messageNumber im) b" by (simp add: hasKey_def)
    with b have "find (hasKey (msgChannel im) (messageNumber im)) (bufferedMessages db) \<noteq> None"
      by (auto simp: find_None_iff)
    with assms(2) show False by (simp add: bufferedFindUnique_def)
  qed
  with find_append_new[OF old, of im]
  show "messageFindUnique (messages (db\<lparr>messages := messages db @ [im]\<rparr>)) (msgChannel b) (messageNumber b) = None"
    by (simp add: messageFindUnique_def)
qed

lemma keysDisjoint_drain_step:
  assumes "keysDisjoint db" and "b \<in> set (bufferedMessages db)"
  shows "keysDisjoint (db\<lparr>messages := messages db @ [b],
      bufferedMessages := filter (\<lambda>y. \<not> hasKey (msgChannel b) (messageNumber b) y) (bufferedMessages db)\<rparr>)"
  unfolding keysDisjoint_def
proof
  fix x
  assume "x \<in> set (bufferedMessages (db\<lparr>messages := messages db @ [b],
      bufferedMessages := filter (\<lambda>y. \<not> hasKey (msgChannel b) (messageNumber b) y) (bufferedMessages db)\<rparr>))"
  then have x: "x \<in> set (bufferedMessages db)" "\<not> hasKey (msgChannel b) (messageNumber b) x" by auto
  then have old: "find (hasKey (msgChannel x) (messageNumber x)) (messages db) = None"
    using assms(1) by (simp add: keysDisjoint_def messageFindUnique_def)
  have "\<not> hasKey (msgChannel x) (messageNumber x) b" using x(2) by (auto simp: hasKey_def)
  with find_append_new[OF old, of b]
  show "messageFindUnique (messages (db\<lparr>messages := messages db @ [b],
      bufferedMessages := filter (\<lambda>y. \<not> hasKey (msgChannel b) (messageNumber b) y) (bufferedMessages db)\<rparr>))
      (msgChannel x) (messageNumber x) = None"
    by (simp add: messageFindUnique_def)
qed

lemma drain_keeps_buffer_inv:
  "keysDisjoint db \<Longrightarrow> bufferedKnown db \<Longrightarrow>
   keysDisjoint (processBufferedMessages db c n) \<and> bufferedKnown (processBufferedMessages db c n)"
proof (induction db c n rule: processBufferedMessages.induct)
  case (1 db c n)
  note kd = \<open>keysDisjoint db\<close> and bk = \<open>bufferedKnown db\<close>
  show ?case
  proof (cases "bufferedFindUnique (bufferedMessages db) c n")
    case None
    then show ?thesis using kd bk by (simp add: processBufferedMessages.simps)
  next
    case (Some b)
    note fb = Some
    then have bin: "b \<in> set (bufferedMessages db)" and key: "msgChannel b = c" "messageNumber b = n"
      using find_SomeD[of "hasKey c n" "bufferedMessages db" b]
      by (auto simp: bufferedFindUnique_def hasKey_def)
    show ?thesis
    proof (cases "rocketFindByChannel (rockets db) c")
      case None
      have "processBufferedMessages db c n =
          db\<lparr>bufferedMessages := filter (\<lambda>y. \<not> hasKey c n y) (bufferedMessages db)\<rparr>"
        using fb None key by (simp add: processBufferedMessages.simps bufferedDelete_def)
      then show ?thesis using kd bk by (auto simp: keysDisjoint_def bufferedKnown_def)
    next
      case (Some rocket)
      note rk = Some
      show ?thesis
      proof (cases "applyStateChange db (Some rocket) b")
        case (Inl e)
        then show ?thesis using kd bk rk fb by (simp add: processBufferedMessages.simps)
      next
        case (Inr p)
        obtain db1 r1 where p: "p = (db1, r1)" by (cases p)
        note ap = Inr
        have t1: "messages db1 = messages db" "bufferedMessages db1 = bufferedMessages db"
          using applyStateChange_tables[of db "Some rocket" b db1 r1] ap p by auto
        have inv1: "keysDisjoint db1" "bufferedKnown db1"
          using kd bk t1 by (auto simp: keysDisjoint_def bufferedKnown_def)
        show ?thesis
        proof (cases "messageCreate db1 b")
          case (Inl e)
          then show ?thesis using inv1 rk fb ap p by (simp add: processBufferedMessages.simps)
        next
          case (Inr db2)
          note mc = Inr
          then have db2: "db2 = db1\<lparr>messages := messages db1 @ [b]\<rparr>"
            by (auto simp: messageCreate_def split: option.splits)
          have "bufferedFindUnique (bufferedMessages db2) (msgChannel b) (messageNumber b) = Some b"
            using fb key t1 db2 by simp
          then have bd: "bufferedDelete db2 b = Inr (db2\<lparr>bufferedMessages :=
              filter (\<lambda>y. \<not> hasKey (msgChannel b) (messageNumber b) y) (bufferedMessages db2)\<rparr>)"
            by (simp add: bufferedDelete_def)
          let ?db3 = "db2\<lparr>bufferedMessages :=
              filter (\<lambda>y. \<not> hasKey (msgChannel b) (messageNumber b) y) (bufferedMessages db2)\<rparr>"
          have "b \<in> set (bufferedMessages db1)" using bin t1 by simp
          from keysDisjoint_drain_step[OF inv1(1) this]
          have k3: "keysDisjoint ?db3" by (simp add: db2)
          have b3: "bufferedKnown ?db3"
            using inv1(2) by (auto simp: bufferedKnown_def db2)
          have "keysDisjoint (processBufferedMessages ?db3 c (n + 1))
              \<and> bufferedKnown (processBufferedMessages ?db3 c (n + 1))"
            using "1.IH"[OF fb rk ap p[symmetric] mc bd k3 b3] .
          then show ?thesis
            using rk fb ap p mc bd by (simp add: processBufferedMessages.simps)
        qed
      qed
    qed
  qed
qed

lemma processMessage_keeps_buffer_inv:
  assumes kd: "keysDisjoint db" and bk: "bufferedKnown db" and known: "knownType im"
  shows "keysDisjoint (fst (processMessage db im)) \<and> bufferedKnown (fst (processMessage db im))"
proof (cases "messageFindUnique (messages db) (msgChannel im) (messageNumber im) = None
    \<and> bufferedFindUnique (bufferedMessages db) (msgChannel im) (messageNumber im) = None")
  case False
  then have "processMessage db im = (db, None)"
    by (auto simp: processMessage_def split: option.splits)
  then show ?thesis using kd bk by simp
next
  case True
  then have f1: "messageFindUnique (messages db) (msgChannel im) (messageNumber im) = None"
    and f2: "bufferedFindUnique (bufferedMessages db) (msgChannel im) (messageNumber im) = None"
    by auto
  have audit: "keysDisjoint (db\<lparr>messages := messages db @ [im]\<rparr>)
      \<and> bufferedKnown (db\<lparr>messages := messages db @ [im]\<rparr>)"
    using keysDisjoint_audit[OF kd f2] bk by (simp add: bufferedKnown_def)
  have buffer: "keysDisjoint (db\<lparr>bufferedMessages := bufferedMessages db @ [im]\<rparr>)
      \<and> bufferedKnown (db\<lparr>bufferedMessages := bufferedMessages db @ [im]\<rparr>)"
    using kd bk known f1 by (auto simp: keysDisjoint_def bufferedKnown_def)
  have drained: "keysDisjoint (fst (applyAndDrain db rocket im))
      \<and> bufferedKnown (fst (applyAndDrain db rocket im))" for rocket
  proof (cases "applyStateChange db rocket im")
    case (Inl e)
    then show ?thesis using kd bk by (simp add: applyAndDrain_def)
  next
    case (Inr p)
    obtain db1 r1 where p: "p = (db1, r1)" by (cases p)
    have t1: "messages db1 = messages db" "bufferedMessages db1 = bufferedMessages db"
      using applyStateChange_tables[of db rocket im db1 r1] Inr p by auto
    have inv1: "keysDisjoint db1" "bufferedKnown db1"
      using kd bk t1 by (auto simp: keysDisjoint_def bufferedKnown_def)
    have mc: "messageCreate db1 im = Inr (db1\<lparr>messages := messages db1 @ [im]\<rparr>)"
      using f1 t1 by (simp add: messageCreate_def)
    have "keysDisjoint (db1\<lparr>messages := messages db1 @ [im]\<rparr>)"
      using keysDisjoint_audit[OF inv1(1)] f2 t1 by simp
    moreover have "bufferedKnown (db1\<lparr>messages := messages db1 @ [im]\<rparr>)"
      using inv1(2) by (simp add: bufferedKnown_def)
    ultimately show ?thesis
      using drain_keeps_buffer_inv Inr p mc by (simp add: applyAndDrain_def)
  qed
  show ?thesis
  proof (cases "rocketFindByChannel (rockets db) (msgChannel im)")
    case None
    then show ?thesis using f1 f2 drained by (simp add: processMessage_def)
  next
    case (Some rocket)
    then show ?thesis
      using f1 f2 drained audit buffer messageCreate_fresh[OF f1] bufferedCreate_fresh[OF f2]
      by (simp add: processMessage_def)
  qed
qed

lemma submitAll_keeps_buffer_inv:
  "keysDisjoint db \<Longrightarrow> bufferedKnown db \<Longrightarrow> \<forall>im \<in> set ims. knownType im \<Longrightarrow>
   keysDisjoint (submitAll db ims) \<and> bufferedKnown (submitAll db ims)"
proof (induction ims arbitrary: db)
  case Nil
  then show ?case by simp
next
  case (Cons im ims)
  then show ?case using processMessage_keeps_buffer_inv[of db im] by simp
qed

lemma emptyDb_buffer_inv: "keysDisjoint emptyDb \<and> bufferedKnown emptyDb"
  by (simp add: keysDisjoint_def bufferedKnown_def emptyDb_def)

section \<open>One submission\<close>

lemma processMessage_success_recorded:
  assumes "processMessage db im = (db', None)"
  shows "messageFindUnique (messages db') (msgChannel im) (messageNumber im) \<noteq> None
    \<or> bufferedFindUnique (bufferedMessages db') (msgChannel im) (messageNumber im) \<noteq> None"
proof (cases "messageFindUnique (messages db) (msgChannel im) (messageNumber im) = None
    \<and> bufferedFindUnique (bufferedMessages db) (msgChannel im) (messageNumber im) = None")
  case False
  then show ?thesis using assms by (auto simp: processMessage_def split: option.splits)
next
  case True
  note fresh = True
  have self: "hasKey (msgChannel im) (messageNumber im) im" by (simp add: hasKey_def)
  have drained: "messageFindUnique (messages db') (msgChannel im) (messageNumber im) \<noteq> None"
    if "applyAndDrain db rocket im = (db', None)" for rocket
  proof -
    from that obtain db1 r db2 where "applyStateChange db rocket im = Inr (db1, r)"
      and mc: "messageCreate db1 im = Inr db2"
      and d: "db' = processBufferedMessages db2 (msgChannel im) (messageNumber im + 1)"
      by (auto simp: applyAndDrain_def split: sum.splits prod.splits)
    from mc have "messageFindUnique (messages db2) (msgChannel im) (messageNumber im) = Some im"
      using self find_append_new[of "hasKey (msgChannel im) (messageNumber im)" "messages db1" im]
      by (auto simp: messageCreate_def messageFindUnique_def split: option.splits)
    then show ?thesis unfolding d using drain_keeps_messages by simp
  qed
  show ?thesis
  proof (cases "rocketFindByChannel (rockets db) (msgChannel im)")
    case None
    then show ?thesis using assms fresh drained by (simp add: processMessage_def)
  next
    case (Some rocket)
    consider (past) "messageNumber im < lastMessageNumber rocket"
      | (ahead) "\<not> messageNumber im < lastMessageNumber rocket" "messageNumber im > lastMessageNumber rocket + 1"
      | (inorder) "\<not> messageNumber im < lastMessageNumber rocket" "\<not> messageNumber im > lastMessageNumber rocket + 1"
      by blast
    then show ?thesis
    proof cases
      case past
      then have "db' = db\<lparr>messages := messages db @ [im]\<rparr>"
        using assms fresh Some messageCreate_fresh[of db im] by (simp add: processMessage_def)
      then show ?thesis
        using fresh self find_append_new[of "hasKey (msgChannel im) (messageNumber im)" "messages db" im]
        by (simp add: messageFindUnique_def)
    next
      case ahead
      then have "db' = db\<lparr>bufferedMessages := bufferedMessages db @ [im]\<rparr>"
        using assms fresh Some bufferedCreate_fresh[of db im] by (simp add: processMessage_def)
      then show ?thesis
        using fresh self find_append_new[of "hasKey (msgChannel im) (messageNumber im)" "bufferedMessages db" im]
        by (simp add: bufferedFindUnique_def)
    next
      case inorder
      then show ?thesis using assms fresh Some drained by (simp add: processMessage_def)
    qed
  qed
qed

lemma drain_never_fails_submission:
  "applyStateChange db rocket im = Inr (db1, r) \<Longrightarrow> messageCreate db1 im = Inr db2 \<Longrightarrow>
   applyAndDrain db rocket im =
     (processBufferedMessages db2 (msgChannel im) (messageNumber im + 1), None)"
  by (simp add: applyAndDrain_def)

lemma stale_message_audited_only:
  assumes "rocketFindByChannel (rockets db) (msgChannel im) = Some r"
    and "messageNumber im < lastMessageNumber r"
    and "messageFindUnique (messages db) (msgChannel im) (messageNumber im) = None"
    and "bufferedFindUnique (bufferedMessages db) (msgChannel im) (messageNumber im) = None"
  shows "processMessage db im = (db\<lparr>messages := messages db @ [im]\<rparr>, None)"
  using assms messageCreate_fresh[OF assms(3)] by (simp add: processMessage_def)

lemma inorder_message_applied_and_drained:
  assumes r: "rocketFindByChannel (rockets db) (msgChannel im) = Some r"
    and fresh: "messageFindUnique (messages db) (msgChannel im) (messageNumber im) = None"
      "bufferedFindUnique (bufferedMessages db) (msgChannel im) (messageNumber im) = None"
    and seq: "messageNumber im = lastMessageNumber r + 1" and known: "knownType im"
    and run: "\<forall>i<length bs.
        bufferedFindUnique (bufferedMessages db) (msgChannel im) (messageNumber im + 1 + int i) = Some (bs ! i)
        \<and> knownType (bs ! i)
        \<and> messageFindUnique (messages db) (msgChannel im) (messageNumber im + 1 + int i) = None"
    and stop: "bufferedFindUnique (bufferedMessages db) (msgChannel im)
        (messageNumber im + 1 + int (length bs)) = None"
  shows "\<exists>db'. processMessage db im = (db', None)
     \<and> messages db' = messages db @ im # bs
     \<and> bufferedMessages db' =
          filter (\<lambda>y. \<not> (msgChannel y = msgChannel im \<and> messageNumber im + 1 \<le> messageNumber y
              \<and> messageNumber y < messageNumber im + 1 + int (length bs))) (bufferedMessages db)
     \<and> (\<forall>c'. rocketFindByChannel (rockets db') c' =
           (if c' = msgChannel im then Some (foldl nextRocket (nextRocket r im) bs)
            else rocketFindByChannel (rockets db) c'))"
proof -
  let ?c = "msgChannel im" and ?n = "messageNumber im"
  from applyStateChange_existing[OF r known] obtain db1 where
    a: "applyStateChange db (Some r) im = Inr (db1, nextRocket r im)"
    and m1: "messages db1 = messages db" and b1: "bufferedMessages db1 = bufferedMessages db"
    and r1: "\<forall>c'. rocketFindByChannel (rockets db1) c' =
           (if c' = ?c then Some (nextRocket r im) else rocketFindByChannel (rockets db) c')"
    by blast
  let ?db2 = "db1\<lparr>messages := messages db1 @ [im]\<rparr>"
  have mc: "messageCreate db1 im = Inr ?db2"
    using fresh(1) m1 by (simp add: messageCreate_def)
  have pm: "processMessage db im = (processBufferedMessages ?db2 ?c (?n + 1), None)"
    using r fresh seq a mc by (simp add: processMessage_def applyAndDrain_def)
  have q1: "rocketFindByChannel (rockets ?db2) ?c = Some (nextRocket r im)" using r1 by simp
  have q2: "\<forall>i<length bs. bufferedFindUnique (bufferedMessages ?db2) ?c (?n + 1 + int i) = Some (bs ! i)
           \<and> knownType (bs ! i) \<and> messageFindUnique (messages ?db2) ?c (?n + 1 + int i) = None"
  proof (intro allI impI)
    fix i assume "i < length bs"
    with run have h: "bufferedFindUnique (bufferedMessages db) ?c (?n + 1 + int i) = Some (bs ! i)"
      "knownType (bs ! i)" "messageFindUnique (messages db) ?c (?n + 1 + int i) = None"
      by blast+
    have "messageFindUnique (messages ?db2) ?c (?n + 1 + int i) = None"
      using h(3) find_append_new[of "hasKey ?c (?n + 1 + int i)" "messages db" im]
      by (simp add: m1 messageFindUnique_def hasKey_def)
    then show "bufferedFindUnique (bufferedMessages ?db2) ?c (?n + 1 + int i) = Some (bs ! i)
           \<and> knownType (bs ! i) \<and> messageFindUnique (messages ?db2) ?c (?n + 1 + int i) = None"
      using h b1 by simp
  qed
  have q3: "bufferedFindUnique (bufferedMessages ?db2) ?c (?n + 1 + int (length bs)) = None"
    using stop b1 by simp
  from drain_run[OF q1 q2 q3] show ?thesis
    unfolding pm using m1 b1 r1 by (intro exI[of _ "processBufferedMessages ?db2 ?c (?n + 1)"]) simp
qed

section \<open>Submissions in any order\<close>

lemma isUpdate_knownType: "isUpdate im \<Longrightarrow> knownType im"
  by (auto simp: isUpdate_def knownType_def split: MessagePayload.splits)

lemma rocketAfter_first: "rocketAfter ev r0 1 = r0"
  by (simp add: rocketAfter_def)

lemma rocketAfter_step:
  "1 \<le> k \<Longrightarrow> rocketAfter ev r0 (k + 1) = nextRocket (rocketAfter ev r0 k) (ev (k + 1))"
proof -
  assume "1 \<le> k"
  then have "[2..k + 1] = [2..k] @ [k + 1]"
    using upto_rec2[of 2 "k + 1"] by simp
  then show ?thesis by (simp add: rocketAfter_def)
qed

lemma rocketAfter_run:
  "1 \<le> a \<Longrightarrow>
   foldl nextRocket (rocketAfter ev r0 a) (map (\<lambda>i. ev (a + 1 + int i)) [0..<d])
     = rocketAfter ev r0 (a + int d)"
proof (induction d)
  case 0
  then show ?case by simp
next
  case (Suc d)
  have e1: "a + int (Suc d) = (a + int d) + 1" and e2: "a + 1 + int d = (a + int d) + 1"
    by simp_all
  have "1 \<le> a + int d" using Suc.prems by simp
  then have st: "rocketAfter ev r0 ((a + int d) + 1)
      = nextRocket (rocketAfter ev r0 (a + int d)) (ev ((a + int d) + 1))"
    by (rule rocketAfter_step)
  have "foldl nextRocket (rocketAfter ev r0 a) (map (\<lambda>i. ev (a + 1 + int i)) [0..<Suc d])
      = nextRocket (foldl nextRocket (rocketAfter ev r0 a) (map (\<lambda>i. ev (a + 1 + int i)) [0..<d]))
          (ev (a + 1 + int d))"
    by simp
  also have "\<dots> = nextRocket (rocketAfter ev r0 (a + int d)) (ev (a + 1 + int d))"
    using Suc.IH[OF Suc.prems] by (simp only:)
  also have "\<dots> = rocketAfter ev r0 (a + int (Suc d))"
    unfolding e1 e2 st ..
  finally show ?case .
qed

lemma rocketAfter_props:
  assumes ok: "eventsOk ev c N" and r0: "lastMessageNumber r0 = 1" "status r0 = ACTIVE"
    and k: "1 \<le> k" "k \<le> N"
  shows "lastMessageNumber (rocketAfter ev r0 k) = k
     \<and> (status (rocketAfter ev r0 k) = EXPLODED \<longrightarrow> (\<exists>i. 2 \<le> i \<and> i \<le> k \<and> isExplosion (ev i)))"
  using k
proof (induction k rule: int_ge_induct)
  case base
  then show ?case using r0 by (simp add: rocketAfter_first)
next
  case (step k)
  then have IH: "lastMessageNumber (rocketAfter ev r0 k) = k"
    "status (rocketAfter ev r0 k) = EXPLODED \<Longrightarrow> \<exists>i. 2 \<le> i \<and> i \<le> k \<and> isExplosion (ev i)"
    by auto
  have upd: "isUpdate (ev (k + 1))" and num: "messageNumber (ev (k + 1)) = k + 1"
    using ok step by (auto simp: eventsOk_def)
  have eq: "rocketAfter ev r0 (k + 1) = nextRocket (rocketAfter ev r0 k) (ev (k + 1))"
    using rocketAfter_step step by simp
  show ?case
  proof (cases "isExplosion (ev (k + 1))")
    case True
    then have "lastMessageNumber (rocketAfter ev r0 (k + 1)) = k + 1"
      unfolding eq using num by (auto simp: nextRocket_def isExplosion_def split: MessagePayload.splits)
    moreover have "\<exists>i. 2 \<le> i \<and> i \<le> k + 1 \<and> isExplosion (ev i)"
      using True step by (intro exI[of _ "k + 1"]) simp
    ultimately show ?thesis by simp
  next
    case False
    have active: "status (rocketAfter ev r0 k) = ACTIVE"
    proof (rule ccontr)
      assume "status (rocketAfter ev r0 k) \<noteq> ACTIVE"
      then have "status (rocketAfter ev r0 k) = EXPLODED" by (cases "status (rocketAfter ev r0 k)") auto
      from IH(2)[OF this] obtain i where "2 \<le> i" "i \<le> k" "isExplosion (ev i)" by blast
      then have "isExplosion (ev (k + 1))"
        using ok step by (auto simp: eventsOk_def)
      with False show False by simp
    qed
    then show ?thesis
      unfolding eq using num upd False
      by (auto simp: nextRocket_def isExplosion_def isUpdate_def split: MessagePayload.splits)
  qed
qed

lemma hasKey_ev:
  "\<forall>n. msgChannel (ev n) = c \<and> messageNumber (ev n) = n \<Longrightarrow> hasKey c k (ev n) = (k = n)"
  by (auto simp: hasKey_def)

lemma nextRocket_keeps_exploded:
  "status r = EXPLODED \<Longrightarrow> status (nextRocket r im) = EXPLODED"
  by (simp add: nextRocket_def split: MessagePayload.splits)

lemma nextRocket_explosion:
  "isExplosion im \<Longrightarrow> status (nextRocket r im) = EXPLODED"
  by (simp add: nextRocket_def isExplosion_def split: MessagePayload.splits)

lemma nextRocket_ignored:
  "isLaunch im \<or> (\<not> isExplosion im \<and> status r = EXPLODED) \<Longrightarrow> nextRocket r im = r"
  by (auto simp: nextRocket_def isLaunch_def isExplosion_def split: MessagePayload.splits)

lemma rocketAfter_exploded:
  assumes "2 \<le> i" and "isExplosion (ev i)" and "i \<le> k"
  shows "status (rocketAfter ev r0 k) = EXPLODED"
  using assms(3)
proof (induction k rule: int_ge_induct)
  case base
  have "1 \<le> i - 1" using assms(1) by simp
  from rocketAfter_step[OF this, of ev r0]
  show ?case using nextRocket_explosion[OF assms(2)] by simp
next
  case (step k)
  have "1 \<le> k" using step assms(1) by simp
  from rocketAfter_step[OF this, of ev r0] step
  show ?case using nextRocket_keeps_exploded by simp
qed

lemma effective_prefix:
  assumes keys: "\<forall>n. msgChannel (ev n) = c \<and> messageNumber (ev n) = n"
    and known: "\<forall>n. 2 \<le> n \<and> n \<le> N \<longrightarrow> knownType (ev n)"
    and r0: "lastMessageNumber r0 = 1" "status r0 = ACTIVE"
    and L: "1 \<le> L" "L \<le> N"
    and eff: "\<forall>k. 2 \<le> k \<and> k \<le> L \<longrightarrow> \<not> ignoredAt ev k"
  shows "eventsOk ev c L"
  unfolding eventsOk_def
proof (intro conjI allI impI)
  fix n show "msgChannel (ev n) = c" using keys by simp
  show "messageNumber (ev n) = n" using keys by simp
next
  fix n assume n: "2 \<le> n \<and> n \<le> L"
  then have "knownType (ev n)" "\<not> isLaunch (ev n)" using known eff L by (auto simp: ignoredAt_def)
  then show "isUpdate (ev n)"
    by (auto simp: knownType_def isLaunch_def isUpdate_def split: MessagePayload.splits)
next
  fix i j assume a: "2 \<le> i \<and> i < j \<and> j \<le> L \<and> isExplosion (ev i)"
  then have "\<not> ignoredAt ev j" using eff by simp
  moreover have "\<exists>i \<in> {2..<j}. isExplosion (ev i)" using a by auto
  ultimately show "isExplosion (ev j)" by (auto simp: ignoredAt_def)
qed

lemma ignored_suffix_effectiveUpTo:
  assumes keys: "\<forall>n. msgChannel (ev n) = c \<and> messageNumber (ev n) = n"
    and known: "\<forall>n. 2 \<le> n \<and> n \<le> N \<longrightarrow> knownType (ev n)"
    and r0: "lastMessageNumber r0 = 1" "status r0 = ACTIVE"
    and N: "1 \<le> N"
    and suffix: "\<forall>j k. 2 \<le> j \<and> j < k \<and> k \<le> N \<and> ignoredAt ev j \<longrightarrow> ignoredAt ev k"
  shows "\<exists>L. effectiveUpTo ev r0 N L"
proof (cases "\<exists>j. 2 \<le> j \<and> j \<le> N \<and> ignoredAt ev j")
  case False
  then have eff: "\<forall>k. 2 \<le> k \<and> k \<le> N \<longrightarrow> \<not> ignoredAt ev k" by blast
  have ok: "eventsOk ev c N"
    using effective_prefix[OF keys known r0 N _ eff] by simp
  have "lastMessageNumber (rocketAfter ev r0 k) = k" if "1 \<le> k" "k \<le> N" for k
    using rocketAfter_props[OF ok r0 that] by simp
  then have "effectiveUpTo ev r0 N N"
    using N by (auto simp: effectiveUpTo_def)
  then show ?thesis ..
next
  case True
  then obtain j0 where j0: "2 \<le> j0" "j0 \<le> N" "ignoredAt ev j0" by blast
  define d where "d = (LEAST i. ignoredAt ev (2 + int i))"
  have "ignoredAt ev (2 + int (nat (j0 - 2)))" using j0 by simp
  then have Jign: "ignoredAt ev (2 + int d)" and dle: "d \<le> nat (j0 - 2)"
    unfolding d_def by (rule LeastI, rule Least_le)
  have before: "\<not> ignoredAt ev (2 + int i)" if "i < d" for i
    using not_less_Least[of i "\<lambda>i. ignoredAt ev (2 + int i)"] that unfolding d_def by blast
  define L where "L = 1 + int d"
  have L: "1 \<le> L" "L \<le> N" "L < N" using dle j0 by (auto simp: L_def)
  have eff: "\<forall>k. 2 \<le> k \<and> k \<le> L \<longrightarrow> \<not> ignoredAt ev k"
  proof (intro allI impI)
    fix k assume k: "2 \<le> k \<and> k \<le> L"
    then have "k = 2 + int (nat (k - 2))" "nat (k - 2) < d" by (auto simp: L_def)
    then show "\<not> ignoredAt ev k" using before by metis
  qed
  have ok: "eventsOk ev c L"
    using effective_prefix[OF keys known r0 L(1) L(2) eff] .
  have last: "lastMessageNumber (rocketAfter ev r0 k) = k" if "1 \<le> k" "k \<le> L" for k
  proof -
    have "\<forall>n. 2 \<le> n \<and> n \<le> L \<longrightarrow> knownType (ev n)" using known L by auto
    from rocketAfter_props[OF ok r0 that] show ?thesis by simp
  qed
  have ign: "ignoredAt ev k" if "L < k" "k \<le> N" for k
  proof (cases "k = L + 1")
    case True
    then show ?thesis using Jign by (simp add: L_def add.commute)
  next
    case False
    then have "2 \<le> L + 1 \<and> L + 1 < k \<and> k \<le> N \<and> ignoredAt ev (L + 1)"
      using that L Jign by (simp add: L_def add.commute)
    then show ?thesis using suffix by blast
  qed
  have noop: "nextRocket (rocketAfter ev r0 L) (ev k) = rocketAfter ev r0 L" if k: "L < k" "k \<le> N" for k
  proof (cases "isLaunch (ev k)")
    case True
    then show ?thesis using nextRocket_ignored by blast
  next
    case False
    with ign[OF k] obtain i where i: "2 \<le> i" "i < k" "isExplosion (ev i)" and nk: "\<not> isExplosion (ev k)"
      by (auto simp: ignoredAt_def)
    have "i \<le> L"
    proof (rule ccontr)
      assume "\<not> i \<le> L"
      then have "ignoredAt ev i" using ign[of i] i k by simp
      then show False using i(3) by (auto simp: ignoredAt_def isLaunch_def isExplosion_def split: MessagePayload.splits)
    qed
    then have "status (rocketAfter ev r0 L) = EXPLODED"
      using rocketAfter_exploded[of i ev L r0] i by simp
    then show ?thesis using nk nextRocket_ignored by blast
  qed
  have stay: "rocketAfter ev r0 k = rocketAfter ev r0 L" if "L \<le> k" "k \<le> N" for k
    using that
  proof (induction k rule: int_ge_induct)
    case base
    show ?case by simp
  next
    case (step k)
    have "1 \<le> k" using step L by simp
    from rocketAfter_step[OF this, of ev r0]
    have "rocketAfter ev r0 (k + 1) = nextRocket (rocketAfter ev r0 L) (ev (k + 1))"
      using step by simp
    then show ?case using noop[of "k + 1"] step by simp
  qed
  have "effectiveUpTo ev r0 N L"
    unfolding effectiveUpTo_def
  proof (intro conjI allI impI)
    show "1 \<le> L" "L \<le> N" using L by simp_all
  next
    fix k assume "1 \<le> k \<and> k \<le> L"
    then show "lastMessageNumber (rocketAfter ev r0 k) = k" using last by blast
  next
    fix k assume "L \<le> k \<and> k \<le> N"
    then show "rocketAfter ev r0 k = rocketAfter ev r0 L" using stay by blast
  qed
  then show ?thesis ..
qed

lemma effective_last:
  assumes "effectiveUpTo ev r0 N L" and "1 \<le> m" "m \<le> N"
  shows "lastMessageNumber (rocketAfter ev r0 m) = (if m \<le> L then m else L)"
proof -
  from assms(1) have L: "1 \<le> L" "L \<le> N"
    and last: "\<And>k. 1 \<le> k \<Longrightarrow> k \<le> L \<Longrightarrow> lastMessageNumber (rocketAfter ev r0 k) = k"
    and stay: "\<And>k. L \<le> k \<Longrightarrow> k \<le> N \<Longrightarrow> rocketAfter ev r0 k = rocketAfter ev r0 L"
    unfolding effectiveUpTo_def by blast+
  show ?thesis
  proof (cases "m \<le> L")
    case True
    then show ?thesis using last[OF assms(2)] by simp
  next
    case False
    then have "rocketAfter ev r0 m = rocketAfter ev r0 L" using stay[of m] assms(3) by simp
    moreover have "lastMessageNumber (rocketAfter ev r0 L) = L" using last[of L] L by simp
    ultimately show ?thesis using False by simp
  qed
qed

lemma inv_buffer_step:
  assumes keys: "\<forall>n. msgChannel (ev n) = c \<and> messageNumber (ev n) = n"
    and inv: "channelInv ev r0 c N L db m B"
    and n: "m < n" "n \<le> N" "n \<notin> B" "m \<le> L \<longrightarrow> n \<noteq> m + 1"
    and last: "lastMessageNumber (rocketAfter ev r0 m) + 1 < n"
  shows "channelInv ev r0 c N L (fst (processMessage db (ev n))) m (insert n B)"
proof -
  have key: "msgChannel (ev n) = c" "messageNumber (ev n) = n"
    using keys by auto
  from inv have m: "1 \<le> m" "m \<le> N"
    and r: "rocketFindByChannel (rockets db) c = Some (rocketAfter ev r0 m)"
    and ms: "\<forall>k. m < k \<longrightarrow> messageFindUnique (messages db) c k = None"
    and bs: "\<forall>k. bufferedFindUnique (bufferedMessages db) c k = (if k \<in> B then Some (ev k) else None)"
    and B: "B \<subseteq> {m + 1..N}" "m \<le> L \<longrightarrow> m + 1 \<notin> B"
    by (auto simp: channelInv_def)
  have f1: "messageFindUnique (messages db) (msgChannel (ev n)) (messageNumber (ev n)) = None"
    using ms n key by simp
  have f2: "bufferedFindUnique (bufferedMessages db) (msgChannel (ev n)) (messageNumber (ev n)) = None"
    using bs n key by simp
  have pm: "processMessage db (ev n) = (db\<lparr>bufferedMessages := bufferedMessages db @ [ev n]\<rparr>, None)"
    using r f1 f2 key last bufferedCreate_fresh[OF f2] by (simp add: processMessage_def)
  have "bufferedFindUnique (bufferedMessages db @ [ev n]) c k
      = (if k \<in> insert n B then Some (ev k) else None)" for k
  proof (cases "k \<in> B")
    case True
    then have "find (hasKey c k) (bufferedMessages db) = Some (ev k)"
      using bs by (simp add: bufferedFindUnique_def)
    from find_append_old[OF this] show ?thesis using True by (simp add: bufferedFindUnique_def)
  next
    case False
    then have "find (hasKey c k) (bufferedMessages db) = None"
      using bs by (simp add: bufferedFindUnique_def)
    from find_append_new[OF this, of "ev n"] show ?thesis
      using False hasKey_ev[OF keys] by (auto simp: bufferedFindUnique_def)
  qed
  then show ?thesis
    unfolding pm using m r ms B n by (auto simp: channelInv_def)
qed

lemma inv_apply_step:
  assumes keys: "\<forall>n. msgChannel (ev n) = c \<and> messageNumber (ev n) = n"
    and known: "\<forall>n. 2 \<le> n \<and> n \<le> N \<longrightarrow> knownType (ev n)"
    and inv: "channelInv ev r0 c N L db m B"
    and n: "n = m + 1" "n \<le> N"
    and nB: "n \<notin> B"
    and last: "lastMessageNumber (rocketAfter ev r0 m) = m"
  shows "\<exists>m' B'. channelInv ev r0 c N L (fst (processMessage db (ev n))) m' B'
     \<and> {1..m'} \<union> B' = insert n ({1..m} \<union> B) \<and> n \<le> m' \<and> m' + 1 \<notin> B'"
proof -
  have key: "msgChannel (ev k) = c" "messageNumber (ev k) = k" for k
    using keys by auto
  from inv have m: "1 \<le> m" "m \<le> N"
    and r: "rocketFindByChannel (rockets db) c = Some (rocketAfter ev r0 m)"
    and ms: "\<forall>k. m < k \<longrightarrow> messageFindUnique (messages db) c k = None"
    and bf: "\<forall>k. bufferedFindUnique (bufferedMessages db) c k = (if k \<in> B then Some (ev k) else None)"
    and B: "B \<subseteq> {m + 1..N}" "m \<le> L \<longrightarrow> m + 1 \<notin> B"
    by (auto simp: channelInv_def)
  define d where "d = (LEAST i. n + 1 + int i \<notin> B)"
  have "n + 1 + int (nat (N - n)) \<notin> B" using B n by auto
  then have stopB: "n + 1 + int d \<notin> B" unfolding d_def by (rule LeastI)
  have runB: "n + 1 + int i \<in> B" if "i < d" for i
    using not_less_Least[of i "\<lambda>i. n + 1 + int i \<notin> B"] that unfolding d_def by blast
  define bs where "bs = map (\<lambda>i. ev (n + 1 + int i)) [0..<d]"
  have len: "length bs = d" and nth: "\<And>i. i < d \<Longrightarrow> bs ! i = ev (n + 1 + int i)"
    by (simp_all add: bs_def)
  have a1: "rocketFindByChannel (rockets db) (msgChannel (ev n)) = Some (rocketAfter ev r0 m)"
    using r key by simp
  have a2: "messageFindUnique (messages db) (msgChannel (ev n)) (messageNumber (ev n)) = None"
    using ms n key by simp
  have a3: "bufferedFindUnique (bufferedMessages db) (msgChannel (ev n)) (messageNumber (ev n)) = None"
    using bf key nB by simp
  have a4: "messageNumber (ev n) = lastMessageNumber (rocketAfter ev r0 m) + 1"
    using last n key by simp
  have "2 \<le> n" using m n by simp
  then have a5: "knownType (ev n)"
    using known n by simp
  have a6: "\<forall>i<length bs.
        bufferedFindUnique (bufferedMessages db) (msgChannel (ev n)) (messageNumber (ev n) + 1 + int i) = Some (bs ! i)
        \<and> knownType (bs ! i)
        \<and> messageFindUnique (messages db) (msgChannel (ev n)) (messageNumber (ev n) + 1 + int i) = None"
  proof (intro allI impI)
    fix i assume "i < length bs"
    then have i: "i < d" using len by simp
    from runB[OF i] have inB: "n + 1 + int i \<in> B" .
    then have "2 \<le> n + 1 + int i" "n + 1 + int i \<le> N" "m < n + 1 + int i"
      using B m by auto
    then have "knownType (ev (n + 1 + int i))" "messageFindUnique (messages db) c (n + 1 + int i) = None"
      using known ms by auto
    then show "bufferedFindUnique (bufferedMessages db) (msgChannel (ev n)) (messageNumber (ev n) + 1 + int i) = Some (bs ! i)
        \<and> knownType (bs ! i)
        \<and> messageFindUnique (messages db) (msgChannel (ev n)) (messageNumber (ev n) + 1 + int i) = None"
      using bf inB nth[OF i] key by simp
  qed
  have a7: "bufferedFindUnique (bufferedMessages db) (msgChannel (ev n))
        (messageNumber (ev n) + 1 + int (length bs)) = None"
    using bf stopB key len by simp
  from inorder_message_applied_and_drained[OF a1 a2 a3 a4 a5 a6 a7]
  obtain db' where pm: "processMessage db (ev n) = (db', None)"
    and m': "messages db' = messages db @ ev n # bs"
    and b': "bufferedMessages db' =
          filter (\<lambda>y. \<not> (msgChannel y = c \<and> n + 1 \<le> messageNumber y
              \<and> messageNumber y < n + 1 + int d)) (bufferedMessages db)"
    and r': "rocketFindByChannel (rockets db') c
        = Some (foldl nextRocket (nextRocket (rocketAfter ev r0 m) (ev n)) bs)"
    using key len by auto
  have "nextRocket (rocketAfter ev r0 m) (ev n) = rocketAfter ev r0 n"
    using rocketAfter_step[OF m(1), of ev r0] n by simp
  moreover have "1 \<le> n" using m n by simp
  ultimately have rk: "rocketFindByChannel (rockets db') c = Some (rocketAfter ev r0 (n + int d))"
    using r' rocketAfter_run[of n ev r0 d] by (simp add: bs_def)
  let ?m' = "n + int d"
  let ?B' = "{k \<in> B. \<not> (n + 1 \<le> k \<and> k < n + 1 + int d)}"
  have le: "?m' \<le> N"
  proof (cases d)
    case 0
    then show ?thesis using n by simp
  next
    case (Suc e)
    then have "n + 1 + int e \<in> B" using runB[of e] by simp
    then show ?thesis using B Suc by auto
  qed
  have inrange: "k \<in> B" if "n + 1 \<le> k" "k < n + 1 + int d" for k
  proof -
    have "k = n + 1 + int (nat (k - n - 1))" "nat (k - n - 1) < d" using that by auto
    then show ?thesis using runB by metis
  qed
  have i2: "messageFindUnique (messages db') c k = None" if "?m' < k" for k
  proof -
    have "find (hasKey c k) (messages db) = None"
      using ms that m n by (simp add: messageFindUnique_def)
    moreover have "find (hasKey c k) (ev n # bs) = None"
      using that hasKey_ev[OF keys] by (auto simp: find_None_iff bs_def)
    ultimately show ?thesis
      unfolding messageFindUnique_def m' by (rule find_append_none)
  qed
  have i3: "bufferedFindUnique (bufferedMessages db') c k = (if k \<in> ?B' then Some (ev k) else None)" for k
  proof (cases "n + 1 \<le> k \<and> k < n + 1 + int d")
    case True
    then have "find (hasKey c k) (bufferedMessages db') = None"
      unfolding b' by (auto simp: find_None_iff hasKey_def)
    then show ?thesis using True by (simp add: bufferedFindUnique_def)
  next
    case False
    have "find (hasKey c k) (bufferedMessages db') = find (hasKey c k) (bufferedMessages db)"
      unfolding b' using False by (intro find_filter_keep) (auto simp: hasKey_def)
    then show ?thesis using bf False by (simp add: bufferedFindUnique_def)
  qed
  have i4: "?B' \<subseteq> {?m' + 1..N}"
  proof
    fix k assume k: "k \<in> ?B'"
    then have "k \<in> B" "\<not> (n + 1 \<le> k \<and> k < n + 1 + int d)" "k \<noteq> n" using nB by auto
    then show "k \<in> {?m' + 1..N}" using B n by auto
  qed
  have i5: "?m' + 1 \<notin> ?B'" using stopB by (auto simp: add.commute add.left_commute)
  have sets: "{1..?m'} \<union> ?B' = insert n ({1..m} \<union> B)"
  proof (intro set_eqI iffI)
    fix k assume "k \<in> {1..?m'} \<union> ?B'"
    then consider "1 \<le> k" "k \<le> m" | "k = n" | "n + 1 \<le> k" "k < n + 1 + int d" | "k \<in> B"
      using n by fastforce
    then show "k \<in> insert n ({1..m} \<union> B)"
      using inrange by cases auto
  next
    fix k assume "k \<in> insert n ({1..m} \<union> B)"
    then show "k \<in> {1..?m'} \<union> ?B'"
      using n m B by auto
  qed
  have "channelInv ev r0 c N L db' ?m' ?B'"
    unfolding channelInv_def using m n le rk i2 i3 i4 i5 by simp
  then show ?thesis using sets pm i5 by (intro exI[of _ ?m'] exI[of _ ?B']) simp
qed

lemma launch_establishes_inv:
  assumes keys: "\<forall>n. msgChannel (ev n) = c \<and> messageNumber (ev n) = n" and N: "1 \<le> N"
    and launch: "message (ev 1) = RocketLaunched ty launchSpeed mis"
    and fresh: "rocketFindByChannel (rockets db) c = None"
      "\<forall>n. messageFindUnique (messages db) c n = None"
      "\<forall>n. bufferedFindUnique (bufferedMessages db) c n = None"
  shows "channelInv ev (newRocket (ev 1) ty launchSpeed mis) c N L (fst (processMessage db (ev 1))) 1 {}"
proof -
  let ?r0 = "newRocket (ev 1) ty launchSpeed mis"
  have key: "msgChannel (ev 1) = c" "messageNumber (ev 1) = 1"
    using keys by auto
  let ?db1 = "db\<lparr>rockets := rockets db @ [?r0]\<rparr>"
  let ?db2 = "?db1\<lparr>messages := messages ?db1 @ [ev 1]\<rparr>"
  have a: "applyStateChange db None (ev 1) = Inr (?db1, ?r0)"
    using launch fresh(1) key by (simp add: applyStateChange_def rocketCreate_def newRocket_def)
  have mc: "messageCreate ?db1 (ev 1) = Inr ?db2"
    using fresh(2) key by (simp add: messageCreate_def)
  have dr: "processBufferedMessages ?db2 c (1 + 1) = ?db2"
    using fresh(3) by (subst processBufferedMessages.simps) simp
  have pm: "processMessage db (ev 1) = (?db2, None)"
    using fresh key a mc dr by (simp add: processMessage_def applyAndDrain_def)
  have "find (\<lambda>r. channel r = c) (rockets db @ [?r0]) = Some ?r0"
    using find_append_new[of "\<lambda>r. channel r = c" "rockets db" ?r0] fresh(1) key
    by (simp add: rocketFindByChannel_def newRocket_def)
  then have i1: "rocketFindByChannel (rockets ?db2) c = Some (rocketAfter ev ?r0 1)"
    by (simp add: rocketFindByChannel_def rocketAfter_first)
  have i2: "messageFindUnique (messages ?db2) c n = None" if "1 < n" for n
    using find_append_new[of "hasKey c n" "messages db" "ev 1"] fresh(2) that hasKey_ev[OF keys]
    by (simp add: messageFindUnique_def)
  show ?thesis
    unfolding pm channelInv_def using N i1 i2 fresh(3) by simp
qed

lemma submitAll_keeps_inv:
  assumes keys: "\<forall>n. msgChannel (ev n) = c \<and> messageNumber (ev n) = n"
    and known: "\<forall>n. 2 \<le> n \<and> n \<le> N \<longrightarrow> knownType (ev n)"
    and eff: "effectiveUpTo ev r0 N L"
  shows "channelInv ev r0 c N L db m B \<Longrightarrow> distinct ns \<Longrightarrow> set ns \<subseteq> {2..N}
     \<Longrightarrow> set ns \<inter> ({1..m} \<union> B) = {}
     \<Longrightarrow> \<exists>m' B'. channelInv ev r0 c N L (submitAll db (map ev ns)) m' B'
           \<and> {1..m'} \<union> B' = {1..m} \<union> B \<union> set ns"
proof (induction ns arbitrary: db m B)
  case Nil
  then show ?case by auto
next
  case (Cons n ns)
  from Cons.prems have n: "2 \<le> n" "n \<le> N" "n \<notin> B" "m < n" by auto
  have "\<exists>m1 B1. channelInv ev r0 c N L (fst (processMessage db (ev n))) m1 B1
     \<and> {1..m1} \<union> B1 = insert n ({1..m} \<union> B)"
  proof (cases "m \<le> L \<and> n = m + 1")
    case True
    then have t: "n = m + 1" "m \<le> L" by simp_all
    from Cons.prems(1) have "1 \<le> m" "m \<le> N" by (auto simp: channelInv_def)
    from effective_last[OF eff this] t have "lastMessageNumber (rocketAfter ev r0 m) = m" by simp
    from inv_apply_step[OF keys known Cons.prems(1) t(1) n(2) n(3) this] show ?thesis by blast
  next
    case False
    then have f: "m \<le> L \<longrightarrow> n \<noteq> m + 1" by simp
    from Cons.prems(1) have "1 \<le> m" "m \<le> N" by (auto simp: channelInv_def)
    from effective_last[OF eff this] f n
    have "lastMessageNumber (rocketAfter ev r0 m) + 1 < n"
      by (auto split: if_splits)
    from inv_buffer_step[OF keys Cons.prems(1) n(4) n(2) n(3) f this]
    have "channelInv ev r0 c N L (fst (processMessage db (ev n))) m (insert n B)" .
    then show ?thesis by (intro exI[of _ m] exI[of _ "insert n B"]) auto
  qed
  then obtain m1 B1 where inv1: "channelInv ev r0 c N L (fst (processMessage db (ev n))) m1 B1"
    and s1: "{1..m1} \<union> B1 = insert n ({1..m} \<union> B)"
    by blast
  have d: "distinct ns" "set ns \<subseteq> {2..N}" using Cons.prems by auto
  have disj: "set ns \<inter> ({1..m1} \<union> B1) = {}"
    unfolding s1 using Cons.prems by auto
  from Cons.IH[OF inv1 d disj] obtain m' B' where
    "channelInv ev r0 c N L (submitAll (fst (processMessage db (ev n))) (map ev ns)) m' B'"
    "{1..m'} \<union> B' = {1..m1} \<union> B1 \<union> set ns"
    by blast
  then show ?case
    unfolding s1 by (intro exI[of _ m'] exI[of _ B']) auto
qed

lemma launch_then_any_order:
  assumes keys: "\<forall>n. msgChannel (ev n) = c \<and> messageNumber (ev n) = n"
    and known: "\<forall>n. 2 \<le> n \<and> n \<le> N \<longrightarrow> knownType (ev n)"
    and suffix: "\<forall>j k. 2 \<le> j \<and> j < k \<and> k \<le> N \<and> ignoredAt ev j \<longrightarrow> ignoredAt ev k"
    and N: "1 \<le> N"
    and launch: "message (ev 1) = RocketLaunched ty launchSpeed mis"
    and fresh: "rocketFindByChannel (rockets db) c = None"
      "\<forall>n. messageFindUnique (messages db) c n = None"
      "\<forall>n. bufferedFindUnique (bufferedMessages db) c n = None"
    and ns: "distinct ns" "set ns = {2..N}"
  shows "rocketFindByChannel (rockets (submitAll db (map ev (1 # ns)))) c
     = Some (rocketAfter ev (newRocket (ev 1) ty launchSpeed mis) N)"
proof -
  let ?r0 = "newRocket (ev 1) ty launchSpeed mis"
  have r0: "lastMessageNumber ?r0 = 1" "status ?r0 = ACTIVE"
    using keys by (auto simp: newRocket_def)
  from ignored_suffix_effectiveUpTo[OF keys known r0 N suffix]
  obtain L where eff: "effectiveUpTo ev ?r0 N L" ..
  from launch_establishes_inv[OF keys N launch fresh]
  have inv1: "channelInv ev ?r0 c N L (fst (processMessage db (ev 1))) 1 {}" .
  have "set ns \<subseteq> {2..N}" "set ns \<inter> ({1..1} \<union> {}) = {}" using ns by auto
  from submitAll_keeps_inv[OF keys known eff inv1 ns(1) this] obtain m' B' where
    inv: "channelInv ev ?r0 c N L (submitAll (fst (processMessage db (ev 1))) (map ev ns)) m' B'"
    and sets: "{1..m'} \<union> B' = {1..1} \<union> {} \<union> set ns"
    by blast
  from inv have m': "1 \<le> m'" "m' \<le> N" and B': "m' \<le> L \<longrightarrow> m' + 1 \<notin> B'"
    and rk: "rocketFindByChannel (rockets (submitAll (fst (processMessage db (ev 1))) (map ev ns))) c
        = Some (rocketAfter ev ?r0 m')"
    by (auto simp: channelInv_def)
  from eff have L: "L \<le> N"
    and stay: "\<And>k. L \<le> k \<Longrightarrow> k \<le> N \<Longrightarrow> rocketAfter ev ?r0 k = rocketAfter ev ?r0 L"
    unfolding effectiveUpTo_def by blast+
  have "L \<le> m'"
  proof (rule ccontr)
    assume "\<not> L \<le> m'"
    then have lt: "m' < L" by simp
    then have "m' + 1 \<in> {2..N}" using m' L by auto
    then have "m' + 1 \<in> {1..m'} \<union> B'" using sets ns by auto
    then show False using B' lt by auto
  qed
  then have "rocketAfter ev ?r0 m' = rocketAfter ev ?r0 L"
    "rocketAfter ev ?r0 N = rocketAfter ev ?r0 L"
    using stay[of m'] stay[of N] m' L by blast+
  then have "rocketAfter ev ?r0 m' = rocketAfter ev ?r0 N" by (simp only:)
  then show ?thesis using rk by simp
qed

text \<open>
  The condition of the reordering property cannot be dropped: when a message that is not
  ignored follows an ignored one, some order of submission leaves another rocket than the
  ascending order does. Submitting the messages after the first ignored one before it
  fills the buffer; the ignored message then drains them all, while in ascending order
  they are buffered for good.
\<close>

lemma submitAll_append: "submitAll db (xs @ ys) = submitAll (submitAll db xs) ys"
  by (induction xs arbitrary: db) simp_all

lemma nextRocket_last:
  "lastMessageNumber (nextRocket r im) = lastMessageNumber r
   \<or> lastMessageNumber (nextRocket r im) = messageNumber im"
  by (simp add: nextRocket_def split: MessagePayload.splits)

lemma nextRocket_status_source:
  "status (nextRocket r im) = EXPLODED \<Longrightarrow> status r = EXPLODED \<or> isExplosion im"
  by (auto simp: nextRocket_def isExplosion_def split: MessagePayload.splits if_splits)

lemma nextRocket_effective:
  "knownType im \<Longrightarrow> \<not> isLaunch im \<Longrightarrow> isExplosion im \<or> status r = ACTIVE \<Longrightarrow>
   lastMessageNumber (nextRocket r im) = messageNumber im"
  by (auto simp: nextRocket_def knownType_def isLaunch_def isExplosion_def split: MessagePayload.splits)

lemma rocketAfter_status_source:
  assumes "status r0 = ACTIVE" and "1 \<le> k"
  shows "status (rocketAfter ev r0 k) = EXPLODED \<longrightarrow> (\<exists>i. 2 \<le> i \<and> i \<le> k \<and> isExplosion (ev i))"
  using assms(2)
proof (induction k rule: int_ge_induct)
  case base
  show ?case using assms(1) by (simp add: rocketAfter_first)
next
  case (step k)
  show ?case
  proof
    assume "status (rocketAfter ev r0 (k + 1)) = EXPLODED"
    then have "status (rocketAfter ev r0 k) = EXPLODED \<or> isExplosion (ev (k + 1))"
      using rocketAfter_step[OF step.hyps, of ev r0] nextRocket_status_source by simp
    then show "\<exists>i. 2 \<le> i \<and> i \<le> k + 1 \<and> isExplosion (ev i)"
    proof
      assume "status (rocketAfter ev r0 k) = EXPLODED"
      with step.IH obtain i where "2 \<le> i" "i \<le> k" "isExplosion (ev i)" by blast
      then show ?thesis by (intro exI[of _ i]) simp
    next
      assume "isExplosion (ev (k + 1))"
      then show ?thesis using step.hyps by (intro exI[of _ "k + 1"]) simp
    qed
  qed
qed

lemma rocketAfter_last_mono:
  assumes keys: "\<forall>n. msgChannel (ev n) = c \<and> messageNumber (ev n) = n"
    and r0: "lastMessageNumber r0 = 1" and a: "1 \<le> a" "a \<le> b"
  shows "lastMessageNumber (rocketAfter ev r0 a) \<le> lastMessageNumber (rocketAfter ev r0 b)
     \<and> lastMessageNumber (rocketAfter ev r0 b) \<le> b"
proof -
  have le: "lastMessageNumber (rocketAfter ev r0 k) \<le> k" if "1 \<le> k" for k
    using that
  proof (induction k rule: int_ge_induct)
    case base
    show ?case using r0 by (simp add: rocketAfter_first)
  next
    case (step k)
    from nextRocket_last[of "rocketAfter ev r0 k" "ev (k + 1)"] step keys
    show ?case unfolding rocketAfter_step[OF step.hyps] by auto
  qed
  have "lastMessageNumber (rocketAfter ev r0 a) \<le> lastMessageNumber (rocketAfter ev r0 b)"
    using a(2)
  proof (induction b rule: int_ge_induct)
    case base
    show ?case by simp
  next
    case (step b)
    have b1: "1 \<le> b" using step.hyps a(1) by simp
    from nextRocket_last[of "rocketAfter ev r0 b" "ev (b + 1)"] step keys le[OF b1]
    show ?case unfolding rocketAfter_step[OF b1] by auto
  qed
  then show ?thesis using le[of b] a by simp
qed

lemma first_ignored:
  assumes "2 \<le> j" "j \<le> N" "ignoredAt ev j"
  shows "\<exists>L. 1 \<le> L \<and> L < j \<and> (\<forall>k. 2 \<le> k \<and> k \<le> L \<longrightarrow> \<not> ignoredAt ev k) \<and> ignoredAt ev (L + 1)"
proof -
  define d where "d = (LEAST i. ignoredAt ev (2 + int i))"
  have "ignoredAt ev (2 + int (nat (j - 2)))" using assms by simp
  then have Jign: "ignoredAt ev (2 + int d)" and dle: "d \<le> nat (j - 2)"
    unfolding d_def by (rule LeastI, rule Least_le)
  have before: "\<not> ignoredAt ev (2 + int i)" if "i < d" for i
    using not_less_Least[of i "\<lambda>i. ignoredAt ev (2 + int i)"] that unfolding d_def by blast
  have eff: "\<forall>k. 2 \<le> k \<and> k \<le> 1 + int d \<longrightarrow> \<not> ignoredAt ev k"
  proof (intro allI impI)
    fix k assume k: "2 \<le> k \<and> k \<le> 1 + int d"
    then have "k = 2 + int (nat (k - 2))" "nat (k - 2) < d" by auto
    then show "\<not> ignoredAt ev k" using before by metis
  qed
  have "1 + int d + 1 = 2 + int d" by simp
  then have "ignoredAt ev (1 + int d + 1)" using Jign by (simp only:)
  moreover have "1 \<le> 1 + int d" "1 + int d < j" using dle assms by auto
  ultimately show ?thesis using eff by blast
qed

lemma buffer_run:
  assumes keys: "\<forall>n. msgChannel (ev n) = c \<and> messageNumber (ev n) = n"
  shows "channelInv ev r0 c N 0 db m B \<Longrightarrow> distinct xs
     \<Longrightarrow> \<forall>n \<in> set xs. m < n \<and> n \<le> N \<and> n \<notin> B \<and> lastMessageNumber (rocketAfter ev r0 m) + 1 < n
     \<Longrightarrow> channelInv ev r0 c N 0 (submitAll db (map ev xs)) m (B \<union> set xs)"
proof (induction xs arbitrary: db B)
  case Nil
  then show ?case by simp
next
  case (Cons n xs)
  from Cons.prems(1) have m: "1 \<le> m" by (simp add: channelInv_def)
  have n: "m < n" "n \<le> N" "n \<notin> B" "lastMessageNumber (rocketAfter ev r0 m) + 1 < n"
    using Cons.prems(3) by auto
  have "m \<le> 0 \<longrightarrow> n \<noteq> m + 1" using m by simp
  from inv_buffer_step[OF keys Cons.prems(1) n(1) n(2) n(3) this n(4)]
  have inv1: "channelInv ev r0 c N 0 (fst (processMessage db (ev n))) m (insert n B)" .
  have d: "distinct xs" using Cons.prems(2) by simp
  have "\<forall>k \<in> set xs. m < k \<and> k \<le> N \<and> k \<notin> insert n B
      \<and> lastMessageNumber (rocketAfter ev r0 m) + 1 < k"
    using Cons.prems(2,3) by auto
  from Cons.IH[OF inv1 d this] show ?case by simp
qed

lemma upto_from_two: "1 \<le> L \<Longrightarrow> L < N \<Longrightarrow> [1..N] = 1 # [2..L] @ (L + 1) # [L + 2..N]"
proof -
  assume L: "1 \<le> L" "L < N"
  have a: "[1..N] = 1 # [2..N]" using L by (simp add: upto_rec1)
  have b: "[2..N] = [2..L] @ [L + 1..N]"
  proof (cases "L = 1")
    case True
    then show ?thesis by simp
  next
    case False
    then show ?thesis using L upto_split2[of 2 L N] by simp
  qed
  have le: "L + 1 \<le> N" and e: "L + 1 + 1 = L + 2" using L by simp_all
  have c: "[L + 1..N] = (L + 1) # [L + 2..N]"
    using upto_rec1[OF le] unfolding e .
  show ?thesis unfolding a b c by simp
qed

lemma ignored_suffix_needed_total:
  assumes keys: "\<forall>n. msgChannel (ev n) = c \<and> messageNumber (ev n) = n"
    and known: "\<forall>n. 2 \<le> n \<and> n \<le> N \<longrightarrow> knownType (ev n)"
    and launch: "message (ev 1) = RocketLaunched ty launchSpeed mis"
    and fresh: "rocketFindByChannel (rockets db) c = None"
      "\<forall>n. messageFindUnique (messages db) c n = None"
      "\<forall>n. bufferedFindUnique (bufferedMessages db) c n = None"
    and viol: "2 \<le> j" "j < k" "k \<le> N" "ignoredAt ev j" "\<not> ignoredAt ev k"
  shows "\<exists>ns. distinct ns \<and> set ns = {2..N}
     \<and> rocketFindByChannel (rockets (submitAll db (map ev (1 # ns)))) c
       \<noteq> rocketFindByChannel (rockets (submitAll db (map ev [1..N]))) c"
proof -
  let ?r0 = "newRocket (ev 1) ty launchSpeed mis"
  let ?R = "rocketAfter ev ?r0"
  have r0: "lastMessageNumber ?r0 = 1" "status ?r0 = ACTIVE"
    using keys by (auto simp: newRocket_def)
  from first_ignored[of j N ev] viol obtain L where L: "1 \<le> L" "L < j"
    and effL: "\<forall>n. 2 \<le> n \<and> n \<le> L \<longrightarrow> \<not> ignoredAt ev n"
    and ignL: "ignoredAt ev (L + 1)"
    by auto
  have LN: "L \<le> N" "L < N" "L + 1 \<le> N" using L viol by simp_all
  have ok: "eventsOk ev c L"
    using effective_prefix[OF keys known r0 L(1) LN(1) effL] .
  have lastk: "lastMessageNumber (?R n) = n" if "1 \<le> n" "n \<le> L" for n
    using rocketAfter_props[OF ok r0 that] by simp
  have effLL: "effectiveUpTo ev ?r0 L L"
    unfolding effectiveUpTo_def using L(1) lastk by auto
  have knownL: "\<forall>n. 2 \<le> n \<and> n \<le> L \<longrightarrow> knownType (ev n)" using known LN by auto
  define db1 where "db1 = fst (processMessage db (ev 1))"
  define dbL where "dbL = submitAll db1 (map ev [2..L])"
  have inv1: "channelInv ev ?r0 c L L db1 1 {}"
    unfolding db1_def using launch_establishes_inv[OF keys L(1) launch fresh] .
  have "distinct [2..L]" "set [2..L] \<subseteq> {2..L}" "set [2..L] \<inter> ({1..1} \<union> {}) = {}" by auto
  from submitAll_keeps_inv[OF keys knownL effLL inv1 this] obtain m' B' where
    inv': "channelInv ev ?r0 c L L dbL m' B'" and sets': "{1..m'} \<union> B' = {1..1} \<union> {} \<union> set [2..L]"
    unfolding dbL_def by blast
  from inv' have m': "1 \<le> m'" "m' \<le> L" and B': "B' \<subseteq> {m' + 1..L}" "m' + 1 \<notin> B'"
    by (auto simp: channelInv_def)
  have mL: "m' = L"
  proof (rule ccontr)
    assume "m' \<noteq> L"
    then have "m' + 1 \<in> {1..1} \<union> {} \<union> set [2..L]" using m' by auto
    then have "m' + 1 \<in> {1..m'} \<union> B'" using sets' by simp
    then show False using B' by auto
  qed
  then have BE: "B' = {}" using B' by auto
  have invL: "channelInv ev ?r0 c N 0 dbL L {}"
    using inv' LN L unfolding mL BE channelInv_def by simp
  have lastL: "lastMessageNumber (?R L) = L" using lastk[of L] L by simp
  have noop: "?R (L + 1) = ?R L"
  proof -
    have "isLaunch (ev (L + 1)) \<or> (\<not> isExplosion (ev (L + 1)) \<and> status (?R L) = EXPLODED)"
    proof (cases "isLaunch (ev (L + 1))")
      case True
      then show ?thesis by simp
    next
      case False
      with ignL obtain i where i: "2 \<le> i" "i \<le> L" "isExplosion (ev i)" and ne: "\<not> isExplosion (ev (L + 1))"
        by (auto simp: ignoredAt_def)
      then have "status (?R L) = EXPLODED" using rocketAfter_exploded[of i ev L ?r0] by simp
      then show ?thesis using ne by simp
    qed
    from nextRocket_ignored[OF this] show ?thesis
      unfolding rocketAfter_step[OF L(1)] .
  qed
  have tail: "distinct [L + 2..N]" by simp
  define dbA where "dbA = fst (processMessage dbL (ev (L + 1)))"
  have asc: "submitAll db (map ev [1..N]) = submitAll dbA (map ev [L + 2..N])"
    unfolding upto_from_two[OF L(1) LN(2)] dbA_def dbL_def db1_def
    by (simp add: submitAll_append)
  have "L + 1 \<notin> ({}::int set)" by simp
  from inv_apply_step[OF keys known invL _ LN(3) this lastL] obtain mA BA where
    invA': "channelInv ev ?r0 c N 0 dbA mA BA"
    and setsA: "{1..mA} \<union> BA = insert (L + 1) ({1..L} \<union> {})" and mA: "L + 1 \<le> mA"
    unfolding dbA_def by auto
  from invA' have BA: "BA \<subseteq> {mA + 1..N}" and mA1: "1 \<le> mA" by (auto simp: channelInv_def)
  have "mA \<in> insert (L + 1) ({1..L} \<union> {})" using setsA mA1 by auto
  then have mAeq: "mA = L + 1" using mA by auto
  have BAe: "BA = {}"
  proof (rule ccontr)
    assume "BA \<noteq> {}"
    then obtain x where x: "x \<in> BA" by blast
    then have "x \<in> insert (L + 1) ({1..L} \<union> {})" "x \<in> {mA + 1..N}"
      using setsA BA by blast+
    then show False using mAeq by auto
  qed
  have invA: "channelInv ev ?r0 c N 0 dbA (L + 1) {}" using invA' unfolding mAeq BAe .
  have "\<forall>n \<in> set [L + 2..N]. L + 1 < n \<and> n \<le> N \<and> n \<notin> {}
      \<and> lastMessageNumber (?R (L + 1)) + 1 < n"
    unfolding noop lastL by auto
  from buffer_run[OF keys invA tail this]
  have "rocketFindByChannel (rockets (submitAll dbA (map ev [L + 2..N]))) c = Some (?R (L + 1))"
    by (simp add: channelInv_def)
  then have ascR: "rocketFindByChannel (rockets (submitAll db (map ev [1..N]))) c = Some (?R L)"
    unfolding asc noop .
  let ?ns = "[2..L] @ [L + 2..N] @ [L + 1]"
  have dist: "distinct ?ns" by auto
  have setns: "set ?ns = {2..N}" using L LN by auto
  define dbB where "dbB = submitAll dbL (map ev [L + 2..N])"
  have perm: "submitAll db (map ev (1 # ?ns)) = fst (processMessage dbB (ev (L + 1)))"
    unfolding dbB_def dbL_def db1_def by (simp add: submitAll_append)
  have "\<forall>n \<in> set [L + 2..N]. L < n \<and> n \<le> N \<and> n \<notin> {}
      \<and> lastMessageNumber (?R L) + 1 < n"
    unfolding lastL by auto
  from buffer_run[OF keys invL tail this]
  have invB: "channelInv ev ?r0 c N 0 dbB L (set [L + 2..N])"
    unfolding dbB_def by simp
  have "L + 1 \<notin> set [L + 2..N]" by simp
  from inv_apply_step[OF keys known invB _ LN(3) this lastL] obtain mC BC where
    invC: "channelInv ev ?r0 c N 0 (fst (processMessage dbB (ev (L + 1)))) mC BC"
    and setsC: "{1..mC} \<union> BC = insert (L + 1) ({1..L} \<union> set [L + 2..N])"
    and stopC: "mC + 1 \<notin> BC"
    by auto
  from invC have mC: "1 \<le> mC" "mC \<le> N"
    and rC: "rocketFindByChannel (rockets (fst (processMessage dbB (ev (L + 1))))) c = Some (?R mC)"
    by (auto simp: channelInv_def)
  have "mC = N"
  proof (rule ccontr)
    assume "mC \<noteq> N"
    then have "mC + 1 \<in> insert (L + 1) ({1..L} \<union> set [L + 2..N])" using mC by auto
    then have "mC + 1 \<in> {1..mC} \<union> BC" using setsC by simp
    then show False using stopC by auto
  qed
  then have permR: "rocketFindByChannel (rockets (submitAll db (map ev (1 # ?ns)))) c = Some (?R N)"
    unfolding perm using rC by simp
  have k1: "1 \<le> k - 1" using viol by simp
  have "isExplosion (ev k) \<or> status (?R (k - 1)) = ACTIVE"
  proof (cases "isExplosion (ev k)")
    case True
    then show ?thesis by simp
  next
    case False
    with viol(5) have none: "\<not> (\<exists>i \<in> {2..<k}. isExplosion (ev i))" by (auto simp: ignoredAt_def)
    have "status (?R (k - 1)) \<noteq> EXPLODED"
    proof
      assume "status (?R (k - 1)) = EXPLODED"
      with rocketAfter_status_source[OF r0(2) k1, of ev] obtain i where
        "2 \<le> i" "i \<le> k - 1" "isExplosion (ev i)" by blast
      then show False using none by auto
    qed
    then show ?thesis by (cases "status (?R (k - 1))") auto
  qed
  moreover have "knownType (ev k)" "\<not> isLaunch (ev k)"
    using known viol by (auto simp: ignoredAt_def)
  ultimately have "lastMessageNumber (nextRocket (?R (k - 1)) (ev k)) = messageNumber (ev k)"
    using nextRocket_effective by blast
  moreover have "?R k = nextRocket (?R (k - 1)) (ev k)"
    using rocketAfter_step[OF k1, of ev ?r0] by simp
  ultimately have "lastMessageNumber (?R k) = k" using keys by simp
  moreover have "lastMessageNumber (?R k) \<le> lastMessageNumber (?R N)"
    using rocketAfter_last_mono[OF keys r0(1), of k N] viol by simp
  ultimately have "lastMessageNumber (?R N) \<noteq> lastMessageNumber (?R L)"
    using lastL L viol by simp
  then have "?R N \<noteq> ?R L" by auto
  then show ?thesis
    using dist setns ascR permR by (intro exI[of _ ?ns]) simp
qed

lemma ignored_suffix_needed:
  assumes "\<forall>n. 1 \<le> n \<and> n \<le> N \<longrightarrow> msgChannel (ev n) = c \<and> messageNumber (ev n) = n"
    and "message (ev 1) = RocketLaunched ty launchSpeed mis"
    and "\<forall>n. 2 \<le> n \<and> n \<le> N \<longrightarrow> knownType (ev n)"
    and "rocketFindByChannel (rockets db) c = None"
    and "\<forall>n. messageFindUnique (messages db) c n = None"
    and "\<forall>n. bufferedFindUnique (bufferedMessages db) c n = None"
    and viol: "2 \<le> j" "j < k" "k \<le> N" "ignoredAt ev j" "\<not> ignoredAt ev k"
  shows "\<exists>ns. distinct ns \<and> set ns = {2..N}
     \<and> rocketFindByChannel (rockets (submitAll db (map ev (1 # ns)))) c
       \<noteq> rocketFindByChannel (rockets (submitAll db (map ev [1..N]))) c"
proof -
  have N: "1 \<le> N" using viol by simp
  define ev' where "ev' = (\<lambda>n. if 1 \<le> n \<and> n \<le> N then ev n else (ev n)\<lparr>msgChannel := c, messageNumber := n\<rparr>)"
  have same: "ev' n = ev n" if "1 \<le> n" "n \<le> N" for n using that by (simp add: ev'_def)
  have maps: "map ev' xs = map ev xs" if "set xs \<subseteq> {1..N}" for xs
    using that same by (intro map_cong) auto
  have keys: "\<forall>n. msgChannel (ev' n) = c \<and> messageNumber (ev' n) = n"
    using assms(1) by (simp add: ev'_def)
  have known: "\<forall>n. 2 \<le> n \<and> n \<le> N \<longrightarrow> knownType (ev' n)"
    using assms(3) same by simp
  have ign: "ignoredAt ev' i = ignoredAt ev i" if "2 \<le> i" "i \<le> N" for i
  proof -
    have "(\<exists>x \<in> {2..<i}. isExplosion (ev' x)) = (\<exists>x \<in> {2..<i}. isExplosion (ev x))"
      using that same by (intro bex_cong) auto
    then show ?thesis using same[of i] that by (simp add: ignoredAt_def)
  qed
  have launch: "message (ev' 1) = RocketLaunched ty launchSpeed mis"
    using assms(2) same[of 1] N by simp
  have v: "ignoredAt ev' j" "\<not> ignoredAt ev' k" using viol ign[of j] ign[of k] by simp_all
  from ignored_suffix_needed_total[OF keys known launch assms(4) assms(5) assms(6) viol(1) viol(2) viol(3) v]
  obtain ns where ns: "distinct ns" "set ns = {2..N}"
    and ne: "rocketFindByChannel (rockets (submitAll db (map ev' (1 # ns)))) c
       \<noteq> rocketFindByChannel (rockets (submitAll db (map ev' [1..N]))) c"
    by blast
  have m1: "map ev' (1 # ns) = map ev (1 # ns)" using ns N by (intro maps) auto
  have m2: "map ev' [1..N] = map ev [1..N]" by (intro maps) auto
  from ne have "rocketFindByChannel (rockets (submitAll db (map ev (1 # ns)))) c
       \<noteq> rocketFindByChannel (rockets (submitAll db (map ev [1..N]))) c"
    unfolding m1 m2 .
  with ns show ?thesis by blast
qed

section \<open>Rounding the average\<close>

lemma mathRound_nearest: "\<bar>of_int (mathRound x) - x\<bar> \<le> 1 / 2"
proof -
  have "of_int \<lfloor>x + 1 / 2\<rfloor> \<le> x + 1 / 2" by (rule of_int_floor_le)
  moreover have "x + 1 / 2 < of_int \<lfloor>x + 1 / 2\<rfloor> + 1"
    using floor_correct[of "x + 1 / 2"] by simp
  ultimately show ?thesis unfolding mathRound_def by linarith
qed

lemma mathRound_zero: "mathRound 0 = 0"
  by (simp add: mathRound_def floor_eq_iff)

lemma matchesWhere_active: "filter (matchesWhere (Some ACTIVE)) rs = filter (\<lambda>r. status r = ACTIVE) rs"
proof -
  have "matchesWhere (Some ACTIVE) = (\<lambda>r. status r = ACTIVE)"
    by (simp add: fun_eq_iff matchesWhere_def)
  then show ?thesis by simp
qed

lemma getAverageSpeed_active:
  "getAverageSpeed dbAvg rs (Some ACTIVE) =
     (if filter (\<lambda>r. status r = ACTIVE) rs = [] then 0
      else dbAvg (map currentSpeed (filter (\<lambda>r. status r = ACTIVE) rs)))"
  by (simp add: getAverageSpeed_def aggregateAvg_def matchesWhere_active Let_def)

lemma average_speed_exact_mean:
  assumes "filter (\<lambda>r. status r = ACTIVE) rs \<noteq> []"
  shows "averageSpeed (getRocketStatistics exactMean rs)
     = \<lfloor>of_int (sum_list (map currentSpeed (filter (\<lambda>r. status r = ACTIVE) rs)))
          / of_nat (length (filter (\<lambda>r. status r = ACTIVE) rs)) + (1 / 2 :: real)\<rfloor>"
  using assms
  by (simp add: getRocketStatistics_def getAverageSpeed_active mathRound_def exactMean_def)

section \<open>Claims\<close>

text \<open>
  C1. (as the code has it) On a channel without rows, let message 1 be a \<open>RocketLaunched\<close>
  submitted first, and let messages \<open>2..N\<close> have message types of the enum. Call a message
  ignored when it is a further launch, or when it is no explosion and an explosion precedes
  it: \<open>applyStateChange\<close> returns the rocket as it is for such a message and does not
  advance \<open>lastMessageNumber\<close>. If every message after an ignored one is ignored too, then
  submitting messages \<open>2..N\<close> once each in any order leaves the same rocket as submitting
  them in ascending order: the launched rocket after the state changes \<open>2..N\<close> in ascending
  order.
\<close>

theorem reordering_invariance_after_launch:
  assumes "\<forall>n. 1 \<le> n \<and> n \<le> N \<longrightarrow> msgChannel (ev n) = c \<and> messageNumber (ev n) = n"
    and "message (ev 1) = RocketLaunched ty launchSpeed mis"
    and "\<forall>n. 2 \<le> n \<and> n \<le> N \<longrightarrow> knownType (ev n)"
    and "\<forall>j k. 2 \<le> j \<and> j < k \<and> k \<le> N \<and> ignoredAt ev j \<longrightarrow> ignoredAt ev k"
    and "1 \<le> N"
    and "rocketFindByChannel (rockets db) c = None"
    and "\<forall>n. messageFindUnique (messages db) c n = None"
    and "\<forall>n. bufferedFindUnique (bufferedMessages db) c n = None"
    and "distinct ns" and "set ns = {2..N}"
  shows "rocketFindByChannel (rockets (submitAll db (map ev (1 # ns)))) c
       = rocketFindByChannel (rockets (submitAll db (map ev [1..N]))) c
     \<and> rocketFindByChannel (rockets (submitAll db (map ev (1 # ns)))) c
       = Some (foldl nextRocket (newRocket (ev 1) ty launchSpeed mis) (map ev [2..N]))"
proof -
  define ev' where "ev' = (\<lambda>n. if 1 \<le> n \<and> n \<le> N then ev n else (ev n)\<lparr>msgChannel := c, messageNumber := n\<rparr>)"
  have same: "ev' n = ev n" if "1 \<le> n" "n \<le> N" for n using that by (simp add: ev'_def)
  have maps: "map ev' xs = map ev xs" if "set xs \<subseteq> {1..N}" for xs
    using that same by (intro map_cong) auto
  have keys: "\<forall>n. msgChannel (ev' n) = c \<and> messageNumber (ev' n) = n"
    using assms(1) by (simp add: ev'_def)
  have known: "\<forall>n. 2 \<le> n \<and> n \<le> N \<longrightarrow> knownType (ev' n)"
    using assms(3) same by simp
  have ign: "ignoredAt ev' j = ignoredAt ev j" if "2 \<le> j" "j \<le> N" for j
  proof -
    have "(\<exists>i \<in> {2..<j}. isExplosion (ev' i)) = (\<exists>i \<in> {2..<j}. isExplosion (ev i))"
      using that same by (intro bex_cong) auto
    then show ?thesis using same[of j] that by (simp add: ignoredAt_def)
  qed
  have suffix: "\<forall>j k. 2 \<le> j \<and> j < k \<and> k \<le> N \<and> ignoredAt ev' j \<longrightarrow> ignoredAt ev' k"
  proof (intro allI impI)
    fix j k assume a: "2 \<le> j \<and> j < k \<and> k \<le> N \<and> ignoredAt ev' j"
    then have "ignoredAt ev j" using ign[of j] by simp
    with a assms(4) have "ignoredAt ev k" by blast
    then show "ignoredAt ev' k" using ign[of k] a by simp
  qed
  have first: "ev' 1 = ev 1" using same[of 1] assms(5) by simp
  have launch: "message (ev' 1) = RocketLaunched ty launchSpeed mis" using assms(2) first by simp
  have up: "[1..N] = 1 # [2..N]" using assms(5) by (simp add: upto_rec1)
  have m1: "map ev' (1 # ns) = map ev (1 # ns)" using assms(5,10) by (intro maps) auto
  have m2: "map ev' [1..N] = map ev [1..N]" by (intro maps) auto
  have m3: "map ev' [2..N] = map ev [2..N]" by (intro maps) auto
  have "distinct [2..N]" "set [2..N] = {2..N}" by simp_all
  from launch_then_any_order[OF keys known suffix assms(5) launch assms(6) assms(7) assms(8) this]
  have a: "rocketFindByChannel (rockets (submitAll db (map ev [1..N]))) c
     = Some (rocketAfter ev' (newRocket (ev 1) ty launchSpeed mis) N)"
    unfolding up[symmetric] m2 first .
  from launch_then_any_order[OF keys known suffix assms(5) launch assms(6) assms(7) assms(8) assms(9) assms(10)]
  have b: "rocketFindByChannel (rockets (submitAll db (map ev (1 # ns)))) c
     = Some (rocketAfter ev' (newRocket (ev 1) ty launchSpeed mis) N)"
    unfolding m1 first .
  have "rocketAfter ev' (newRocket (ev 1) ty launchSpeed mis) N
      = foldl nextRocket (newRocket (ev 1) ty launchSpeed mis) (map ev [2..N])"
    unfolding rocketAfter_def m3 ..
  with a b show ?thesis by simp
qed

theorem reordering_invariance_after_launch_witness:
  "rocketFindByChannel (rockets (submitAll emptyDb (map (\<lambda>n. mkMessage n (samplePayload n)) [1, 4, 3, 5, 2]))) ''ch1''
     = rocketFindByChannel (rockets (submitAll emptyDb (map (\<lambda>n. mkMessage n (samplePayload n)) [1..5]))) ''ch1''
   \<and> rocketFindByChannel (rockets (submitAll emptyDb (map (\<lambda>n. mkMessage n (samplePayload n)) [1, 4, 3, 5, 2]))) ''ch1''
     = Some \<lparr>channel = ''ch1'', rocketType = ''Falcon-9'', currentSpeed = 0, mission = ''ARTEMIS'',
         status = EXPLODED, explosionReason = Some ''PRESSURE_VESSEL_FAILURE'',
         lastMessageNumber = 3, lastMessageTime = 103\<rparr>"
proof -
  let ?ev = "\<lambda>n. mkMessage n (samplePayload n)"
  have h1: "\<forall>n. 1 \<le> n \<and> n \<le> 5 \<longrightarrow> msgChannel (?ev n) = ''ch1'' \<and> messageNumber (?ev n) = n"
    by (simp add: mkMessage_def)
  have h2: "message (?ev 1) = RocketLaunched ''Falcon-9'' 500 ''ARTEMIS''"
    by (simp add: mkMessage_def samplePayload_def)
  have h3: "\<forall>n. 2 \<le> n \<and> n \<le> 5 \<longrightarrow> knownType (?ev n)"
    by (simp add: mkMessage_def samplePayload_def knownType_def)
  have e3: "isExplosion (?ev 3)" by (simp add: mkMessage_def samplePayload_def isExplosion_def)
  have late: "ignoredAt ?ev k" if "4 \<le> k" for k
  proof -
    have "\<not> isExplosion (?ev k)" using that by (simp add: mkMessage_def samplePayload_def isExplosion_def)
    moreover have "3 \<in> {2..<k}" using that by simp
    ultimately show ?thesis using e3 unfolding ignoredAt_def by blast
  qed
  have early: "\<not> ignoredAt ?ev j" if "2 \<le> j" "j \<le> 3" for j
  proof -
    have "j = 2 \<or> j = 3" using that by auto
    then show ?thesis
      by (auto simp: ignoredAt_def isLaunch_def isExplosion_def mkMessage_def samplePayload_def)
  qed
  have h4: "\<forall>j k. 2 \<le> j \<and> j < k \<and> k \<le> 5 \<and> ignoredAt ?ev j \<longrightarrow> ignoredAt ?ev k"
  proof (intro allI impI)
    fix j k assume a: "2 \<le> j \<and> j < k \<and> k \<le> 5 \<and> ignoredAt ?ev j"
    then have "\<not> j \<le> 3" using early[of j] by blast
    then show "ignoredAt ?ev k" using a late[of k] by simp
  qed
  have h5: "(1::int) \<le> 5" by simp
  have h6: "rocketFindByChannel (rockets emptyDb) ''ch1'' = None"
    and h7: "\<forall>n. messageFindUnique (messages emptyDb) ''ch1'' n = None"
    and h8: "\<forall>n. bufferedFindUnique (bufferedMessages emptyDb) ''ch1'' n = None"
    by (simp_all add: emptyDb_def repo_defs)
  have h9: "distinct [4, 3, 5, 2::int]" by simp
  have h10: "set [4, 3, 5, 2::int] = {2..5}" by auto
  have l: "[2..5::int] = [2, 3, 4, 5]" by (simp add: upto_rec1)
  have f: "foldl nextRocket (newRocket (?ev 1) ''Falcon-9'' 500 ''ARTEMIS'') (map ?ev [2..5])
      = \<lparr>channel = ''ch1'', rocketType = ''Falcon-9'', currentSpeed = 0, mission = ''ARTEMIS'',
         status = EXPLODED, explosionReason = Some ''PRESSURE_VESSEL_FAILURE'',
         lastMessageNumber = 3, lastMessageTime = 103\<rparr>"
    unfolding l by (simp add: nextRocket_def newRocket_def mkMessage_def samplePayload_def)
  from reordering_invariance_after_launch[of 5 ?ev "''ch1''" "''Falcon-9''" 500 "''ARTEMIS''" emptyDb "[4, 3, 5, 2]",
      OF h1 h2 h3 h4 h5 h6 h7 h8 h9 h10]
  show ?thesis
    unfolding f .
qed

text \<open>
  The claim as stated, for every permutation of \<open>1..N\<close>, fails when an update arrives before
  the launch: \<open>applyStateChange\<close> throws for the missing rocket, nothing is stored, and the
  update is lost. Order 2, 1 leaves the launched rocket at speed 500, order 1, 2 at 1000.
\<close>

theorem reordering_counterexample:
  "rocketFindByChannel (rockets (submitAll emptyDb [mkMessage 2 (samplePayload 2), mkMessage 1 (samplePayload 1)])) ''ch1''
     = Some (sampleRocket\<lparr>lastMessageTime := 101\<rparr>)
   \<and> rocketFindByChannel (rockets (submitAll emptyDb [mkMessage 1 (samplePayload 1), mkMessage 2 (samplePayload 2)])) ''ch1''
     = Some (sampleRocket\<lparr>currentSpeed := 1000, lastMessageNumber := 2, lastMessageTime := 102\<rparr>)
   \<and> rocketFindByChannel (rockets (submitAll emptyDb [mkMessage 2 (samplePayload 2), mkMessage 1 (samplePayload 1)])) ''ch1''
     \<noteq> rocketFindByChannel (rockets (submitAll emptyDb [mkMessage 1 (samplePayload 1), mkMessage 2 (samplePayload 2)])) ''ch1''"
  by (simp add: run_defs sample_defs samplePayload_def)

text \<open>
  The condition on ignored messages is needed as well (\<open>ignored_suffix_needed\<close>): a message
  that is ignored does not advance \<open>lastMessageNumber\<close>, so in ascending order the next
  message is buffered for good, while it is drained and applied when it was buffered before
  the ignored message arrived. The first example has an explosion after an update that the
  exploded rocket ignores, the second an update after a second launch. In the third,
  nothing follows the ignored update, and the two orders agree.
\<close>

lemma explosion_then_update_example:
  "rocketFindByChannel (rockets (submitAll sampleDb
      [mkMessage 2 (RocketExploded ''A''), mkMessage 3 (RocketSpeedIncreased 500), mkMessage 4 (RocketExploded ''B'')])) ''ch1''
     = Some (sampleRocket\<lparr>currentSpeed := 0, status := EXPLODED, explosionReason := Some ''A'',
          lastMessageNumber := 2, lastMessageTime := 102\<rparr>)
   \<and> rocketFindByChannel (rockets (submitAll sampleDb
      [mkMessage 2 (RocketExploded ''A''), mkMessage 4 (RocketExploded ''B''), mkMessage 3 (RocketSpeedIncreased 500)])) ''ch1''
     = Some (sampleRocket\<lparr>currentSpeed := 0, status := EXPLODED, explosionReason := Some ''B'',
          lastMessageNumber := 4, lastMessageTime := 104\<rparr>)"
  by (simp add: run_defs sample_defs)

lemma second_launch_then_update_example:
  "rocketFindByChannel (rockets (submitAll sampleDb
      [mkMessage 2 (RocketLaunched ''Falcon-9'' 900 ''GEMINI''), mkMessage 3 (RocketSpeedIncreased 500)])) ''ch1''
     = Some sampleRocket
   \<and> rocketFindByChannel (rockets (submitAll sampleDb
      [mkMessage 3 (RocketSpeedIncreased 500), mkMessage 2 (RocketLaunched ''Falcon-9'' 900 ''GEMINI'')])) ''ch1''
     = Some (sampleRocket\<lparr>currentSpeed := 1000, lastMessageNumber := 3, lastMessageTime := 103\<rparr>)"
  by (simp add: run_defs sample_defs)

lemma spec_scenario_terminate_then_increase:
  "rocketFindByChannel (rockets (submitAll emptyDb
      [mkMessage 1 (RocketLaunched ''Falcon-9'' 500 ''ARTEMIS''), mkMessage 2 (RocketExploded ''X''),
       mkMessage 3 (RocketSpeedIncreased 999)])) ''ch1''
     = rocketFindByChannel (rockets (submitAll emptyDb
      [mkMessage 1 (RocketLaunched ''Falcon-9'' 500 ''ARTEMIS''), mkMessage 3 (RocketSpeedIncreased 999),
       mkMessage 2 (RocketExploded ''X'')])) ''ch1''"
  by (simp add: run_defs sample_defs)

text \<open>
  C2. The claim: a message whose number is at most the rocket's \<open>lastMessageNumber\<close> is
  audited and never applied. \<open>processMessage\<close> tests \<open>messageNumber < lastMessageNumber\<close>, so
  a message whose number equals \<open>lastMessageNumber\<close> and that has no audit row yet takes the
  apply branch: here a rocket at speed 500 with \<open>lastMessageNumber = 1\<close> receives
  \<open>RocketSpeedIncreased 1000\<close> numbered 1 and ends at speed 1500.
\<close>

theorem equal_sequence_number_applied:
  "rockets sampleDb = [sampleRocket]
   \<and> lastMessageNumber sampleRocket = 1
   \<and> messageNumber (mkMessage 1 (RocketSpeedIncreased 1000)) = 1
   \<and> processMessage sampleDb (mkMessage 1 (RocketSpeedIncreased 1000)) =
       (\<lparr>rockets = [sampleRocket\<lparr>currentSpeed := 1500, lastMessageTime := 101\<rparr>],
         messages = [mkMessage 1 (RocketSpeedIncreased 1000)], bufferedMessages = []\<rparr>, None)"
  by (simp add: run_defs sample_defs)

text \<open>
  C3. (as the code has it) For a stored rocket in status \<open>EXPLODED\<close>, an in-order
  \<open>RocketSpeedIncreased\<close>, \<open>RocketSpeedDecreased\<close> or \<open>RocketMissionChanged\<close> message returns
  the rocket as it is and writes nothing to the rocket table, so \<open>lastMessageNumber\<close> does
  not advance; the submission appends the audit row and then drains the buffer.
\<close>

theorem exploded_rocket_ignores_updates:
  assumes "rocketFindByChannel (rockets db) (msgChannel im) = Some r"
    and "status r = EXPLODED"
    and "message im = RocketSpeedIncreased by \<or> message im = RocketSpeedDecreased by
         \<or> message im = RocketMissionChanged newMission"
    and "messageNumber im = lastMessageNumber r + 1"
    and "messageFindUnique (messages db) (msgChannel im) (messageNumber im) = None"
    and "bufferedFindUnique (bufferedMessages db) (msgChannel im) (messageNumber im) = None"
  shows "applyStateChange db (Some r) im = Inr (db, r)
     \<and> processMessage db im =
         (processBufferedMessages (db\<lparr>messages := messages db @ [im]\<rparr>)
            (msgChannel im) (messageNumber im + 1), None)"
proof -
  have a: "applyStateChange db (Some r) im = Inr (db, r)"
    using assms(2,3) by (auto simp: applyStateChange_def ensureRocket_def)
  then show ?thesis
    using assms messageCreate_fresh[OF assms(5)]
    by (simp add: processMessage_def applyAndDrain_def)
qed

theorem exploded_rocket_ignores_updates_witness:
  "rocketFindByChannel (rockets explodedDb) (msgChannel (mkMessage 6 (RocketSpeedIncreased 1000))) = Some explodedRocket
   \<and> status explodedRocket = EXPLODED
   \<and> messageNumber (mkMessage 6 (RocketSpeedIncreased 1000)) = lastMessageNumber explodedRocket + 1
   \<and> applyStateChange explodedDb (Some explodedRocket) (mkMessage 6 (RocketSpeedIncreased 1000))
        = Inr (explodedDb, explodedRocket)
   \<and> processMessage explodedDb (mkMessage 6 (RocketSpeedIncreased 1000)) =
         (processBufferedMessages (explodedDb\<lparr>messages := messages explodedDb @ [mkMessage 6 (RocketSpeedIncreased 1000)]\<rparr>)
            (msgChannel (mkMessage 6 (RocketSpeedIncreased 1000))) (messageNumber (mkMessage 6 (RocketSpeedIncreased 1000)) + 1), None)"
proof -
  let ?m = "mkMessage 6 (RocketSpeedIncreased 1000)"
  have h1: "rocketFindByChannel (rockets explodedDb) (msgChannel ?m) = Some explodedRocket"
    by (simp add: sample_defs rocketFindByChannel_def)
  have h2: "status explodedRocket = EXPLODED" by (simp add: sample_defs)
  have h3: "message ?m = RocketSpeedIncreased 1000 \<or> message ?m = RocketSpeedDecreased 1000
         \<or> message ?m = RocketMissionChanged ''''"
    by (simp add: sample_defs)
  have h4: "messageNumber ?m = lastMessageNumber explodedRocket + 1" by (simp add: sample_defs)
  have h5: "messageFindUnique (messages explodedDb) (msgChannel ?m) (messageNumber ?m) = None"
    by (simp add: sample_defs messageFindUnique_def)
  have h6: "bufferedFindUnique (bufferedMessages explodedDb) (msgChannel ?m) (messageNumber ?m) = None"
    by (simp add: sample_defs bufferedFindUnique_def)
  show ?thesis
    using h1 h2 h4 exploded_rocket_ignores_updates[OF h1 h2 h3 h4 h5 h6] by simp
qed

text \<open>
  The claim as stated, that \<open>lastMessageNumber\<close> advances to the message's number, fails:
  message 6 leaves the exploded rocket at \<open>lastMessageNumber = 5\<close>.
\<close>

theorem exploded_rocket_sequence_counterexample:
  "status explodedRocket = EXPLODED
   \<and> lastMessageNumber explodedRocket = 5
   \<and> lastMessageNumber explodedRocket \<noteq> messageNumber (mkMessage 6 (RocketSpeedIncreased 1000))
   \<and> processMessage explodedDb (mkMessage 6 (RocketSpeedIncreased 1000))
       = (\<lparr>rockets = [explodedRocket], messages = [mkMessage 6 (RocketSpeedIncreased 1000)],
           bufferedMessages = []\<rparr>, None)"
  by (simp add: run_defs sample_defs)

text \<open>
  C4. (as the code has it) A \<open>RocketLaunched\<close> message applied to an existing rocket returns
  that rocket unchanged in every field, \<open>lastMessageNumber\<close> included, and leaves the database
  as it is.
\<close>

theorem launch_for_existing_rocket_ignored:
  assumes "message im = RocketLaunched ty launchSpeed mis"
  shows "applyStateChange db (Some r) im = Inr (db, r)"
  using assms by (simp add: applyStateChange_def)

theorem launch_for_existing_rocket_ignored_witness:
  "message (mkMessage 2 (RocketLaunched ''Falcon-9'' 900 ''GEMINI'')) = RocketLaunched ''Falcon-9'' 900 ''GEMINI''
   \<and> applyStateChange sampleDb (Some sampleRocket) (mkMessage 2 (RocketLaunched ''Falcon-9'' 900 ''GEMINI''))
       = Inr (sampleDb, sampleRocket)"
  using launch_for_existing_rocket_ignored[of "mkMessage 2 (RocketLaunched ''Falcon-9'' 900 ''GEMINI'')"
      "''Falcon-9''" 900 "''GEMINI''" sampleDb sampleRocket]
  by (simp add: mkMessage_def)

text \<open>
  The claim as stated, that \<open>lastMessageNumber\<close> advances to the launch's number, fails:
  launch 2 for a rocket at \<open>lastMessageNumber = 1\<close> writes the audit row only.
\<close>

theorem launch_for_existing_rocket_counterexample:
  "processMessage sampleDb (mkMessage 2 (RocketLaunched ''Falcon-9'' 900 ''GEMINI''))
     = (sampleDb\<lparr>messages := [mkMessage 2 (RocketLaunched ''Falcon-9'' 900 ''GEMINI'')]\<rparr>, None)
   \<and> rockets sampleDb = [sampleRocket]
   \<and> lastMessageNumber sampleRocket = 1
   \<and> messageNumber (mkMessage 2 (RocketLaunched ''Falcon-9'' 900 ''GEMINI'')) = 2
   \<and> lastMessageNumber sampleRocket \<noteq> messageNumber (mkMessage 2 (RocketLaunched ''Falcon-9'' 900 ''GEMINI''))"
  by (simp add: run_defs sample_defs)

text \<open>
  C5. If an audit row or a buffered row exists for the message's (channel, messageNumber),
  \<open>processMessage\<close> returns normally and leaves all three tables as they are; and after any
  normal return of \<open>processMessage\<close>, submitting a message with the same channel and number
  again returns normally and changes nothing.
\<close>

theorem duplicate_submit_no_writes:
  "(messageFindUnique (messages db) (msgChannel im) (messageNumber im) \<noteq> None
      \<or> bufferedFindUnique (bufferedMessages db) (msgChannel im) (messageNumber im) \<noteq> None
     \<longrightarrow> processMessage db im = (db, None))
   \<and> (processMessage db im = (db', None)
        \<and> msgChannel im' = msgChannel im \<and> messageNumber im' = messageNumber im
     \<longrightarrow> processMessage db' im' = (db', None))"
proof (intro conjI impI)
  assume "messageFindUnique (messages db) (msgChannel im) (messageNumber im) \<noteq> None
      \<or> bufferedFindUnique (bufferedMessages db) (msgChannel im) (messageNumber im) \<noteq> None"
  then show "processMessage db im = (db, None)"
    by (auto simp: processMessage_def split: option.splits)
next
  assume a: "processMessage db im = (db', None)
        \<and> msgChannel im' = msgChannel im \<and> messageNumber im' = messageNumber im"
  then have "messageFindUnique (messages db') (msgChannel im') (messageNumber im') \<noteq> None
    \<or> bufferedFindUnique (bufferedMessages db') (msgChannel im') (messageNumber im') \<noteq> None"
    using processMessage_success_recorded[of db im db'] by simp
  then show "processMessage db' im' = (db', None)"
    by (auto simp: processMessage_def split: option.splits)
qed

theorem duplicate_submit_no_writes_witness:
  "processMessage sampleDb (mkMessage 2 (RocketSpeedIncreased 1000)) =
     (\<lparr>rockets = [sampleRocket\<lparr>currentSpeed := 1500, lastMessageNumber := 2, lastMessageTime := 102\<rparr>],
       messages = [mkMessage 2 (RocketSpeedIncreased 1000)], bufferedMessages = []\<rparr>, None)
   \<and> messageFindUnique [mkMessage 2 (RocketSpeedIncreased 1000)] ''ch1'' 2 \<noteq> None
   \<and> processMessage
        \<lparr>rockets = [sampleRocket\<lparr>currentSpeed := 1500, lastMessageNumber := 2, lastMessageTime := 102\<rparr>],
          messages = [mkMessage 2 (RocketSpeedIncreased 1000)], bufferedMessages = []\<rparr>
        (mkMessage 2 (RocketSpeedIncreased 1000)) =
     (\<lparr>rockets = [sampleRocket\<lparr>currentSpeed := 1500, lastMessageNumber := 2, lastMessageTime := 102\<rparr>],
       messages = [mkMessage 2 (RocketSpeedIncreased 1000)], bufferedMessages = []\<rparr>, None)"
proof -
  let ?m = "mkMessage 2 (RocketSpeedIncreased 1000)"
  let ?db' = "\<lparr>rockets = [sampleRocket\<lparr>currentSpeed := 1500, lastMessageNumber := 2, lastMessageTime := 102\<rparr>],
       messages = [?m], bufferedMessages = []\<rparr>"
  have h: "processMessage sampleDb ?m = (?db', None)"
    by (simp add: run_defs sample_defs)
  have k: "messageFindUnique [?m] ''ch1'' 2 \<noteq> None"
    by (simp add: messageFindUnique_def hasKey_def mkMessage_def)
  from duplicate_submit_no_writes[of sampleDb ?m ?db' ?m] h
  have "processMessage ?db' ?m = (?db', None)" by blast
  with h k show ?thesis by blast
qed

text \<open>
  C6. In a database where no buffered row has an audit row and every buffered row has a
  message type of the enum (\<open>processMessage\<close> keeps both, see
  \<open>processMessage_keeps_buffer_inv\<close>), with a rocket stored for the channel and no audit or
  buffered row for the message's key: a message whose number exceeds
  \<open>lastMessageNumber + 1\<close> is appended to the buffer and nothing else is written. And when
  the in-order message \<open>lastMessageNumber + 1\<close> arrives while the buffer holds the rows
  \<open>bs\<close> for the following numbers, without a gap, and no row for the number after them, the
  same \<open>processMessage\<close> call returns normally, has applied the message and then \<open>bs\<close> in
  ascending order to the rocket, has appended their audit rows in that order and has
  removed exactly those rows from the buffer.
\<close>

theorem future_message_buffered_then_drained:
  assumes "keysDisjoint db" and "bufferedKnown db"
    and "rocketFindByChannel (rockets db) (msgChannel im) = Some r"
    and "messageFindUnique (messages db) (msgChannel im) (messageNumber im) = None"
    and "bufferedFindUnique (bufferedMessages db) (msgChannel im) (messageNumber im) = None"
  shows "(messageNumber im > lastMessageNumber r + 1 \<longrightarrow>
            processMessage db im = (db\<lparr>bufferedMessages := bufferedMessages db @ [im]\<rparr>, None))
    \<and> (messageNumber im = lastMessageNumber r + 1 \<and> knownType im
        \<and> (\<forall>i<length bs.
              bufferedFindUnique (bufferedMessages db) (msgChannel im) (messageNumber im + 1 + int i)
                = Some (bs ! i))
        \<and> bufferedFindUnique (bufferedMessages db) (msgChannel im)
              (messageNumber im + 1 + int (length bs)) = None
       \<longrightarrow> (\<exists>db'. processMessage db im = (db', None)
             \<and> messages db' = messages db @ im # bs
             \<and> bufferedMessages db' =
                  filter (\<lambda>y. \<not> (msgChannel y = msgChannel im \<and> messageNumber im + 1 \<le> messageNumber y
                      \<and> messageNumber y < messageNumber im + 1 + int (length bs))) (bufferedMessages db)
             \<and> (\<forall>c'. rocketFindByChannel (rockets db') c' =
                   (if c' = msgChannel im then Some (foldl nextRocket (nextRocket r im) bs)
                    else rocketFindByChannel (rockets db) c'))))"
proof (intro conjI impI)
  assume "lastMessageNumber r + 1 < messageNumber im"
  then show "processMessage db im = (db\<lparr>bufferedMessages := bufferedMessages db @ [im]\<rparr>, None)"
    using assms(3-5) bufferedCreate_fresh[OF assms(5)] by (simp add: processMessage_def)
next
  assume a: "messageNumber im = lastMessageNumber r + 1 \<and> knownType im
        \<and> (\<forall>i<length bs.
              bufferedFindUnique (bufferedMessages db) (msgChannel im) (messageNumber im + 1 + int i)
                = Some (bs ! i))
        \<and> bufferedFindUnique (bufferedMessages db) (msgChannel im)
              (messageNumber im + 1 + int (length bs)) = None"
  have run: "\<forall>i<length bs.
        bufferedFindUnique (bufferedMessages db) (msgChannel im) (messageNumber im + 1 + int i) = Some (bs ! i)
        \<and> knownType (bs ! i)
        \<and> messageFindUnique (messages db) (msgChannel im) (messageNumber im + 1 + int i) = None"
  proof (intro allI impI)
    fix i assume "i < length bs"
    with a have "bufferedFindUnique (bufferedMessages db) (msgChannel im) (messageNumber im + 1 + int i)
        = Some (bs ! i)"
      by blast
    then have f: "find (hasKey (msgChannel im) (messageNumber im + 1 + int i)) (bufferedMessages db)
        = Some (bs ! i)"
      by (simp only: bufferedFindUnique_def)
    from find_SomeD[OF f] have mem: "bs ! i \<in> set (bufferedMessages db)"
      and key: "msgChannel (bs ! i) = msgChannel im" "messageNumber (bs ! i) = messageNumber im + 1 + int i"
      by (auto simp: hasKey_def)
    from mem assms(1) have "messageFindUnique (messages db) (msgChannel (bs ! i)) (messageNumber (bs ! i)) = None"
      by (simp add: keysDisjoint_def)
    moreover from mem assms(2) have "knownType (bs ! i)" by (simp add: bufferedKnown_def)
    ultimately show "bufferedFindUnique (bufferedMessages db) (msgChannel im) (messageNumber im + 1 + int i) = Some (bs ! i)
        \<and> knownType (bs ! i)
        \<and> messageFindUnique (messages db) (msgChannel im) (messageNumber im + 1 + int i) = None"
      using f key by (simp add: bufferedFindUnique_def)
  qed
  from a have seq: "messageNumber im = lastMessageNumber r + 1" and known: "knownType im"
    and stop: "bufferedFindUnique (bufferedMessages db) (msgChannel im)
              (messageNumber im + 1 + int (length bs)) = None"
    by blast+
  from inorder_message_applied_and_drained[OF assms(3) assms(4) assms(5) seq known run stop]
  show "\<exists>db'. processMessage db im = (db', None)
             \<and> messages db' = messages db @ im # bs
             \<and> bufferedMessages db' =
                  filter (\<lambda>y. \<not> (msgChannel y = msgChannel im \<and> messageNumber im + 1 \<le> messageNumber y
                      \<and> messageNumber y < messageNumber im + 1 + int (length bs))) (bufferedMessages db)
             \<and> (\<forall>c'. rocketFindByChannel (rockets db') c' =
                   (if c' = msgChannel im then Some (foldl nextRocket (nextRocket r im) bs)
                    else rocketFindByChannel (rockets db) c'))" .
qed

theorem future_message_buffered_then_drained_witness:
  "processMessage sampleDb (mkMessage 3 (RocketSpeedIncreased 1000))
     = (sampleDb\<lparr>bufferedMessages := [mkMessage 3 (RocketSpeedIncreased 1000)]\<rparr>, None)
   \<and> (\<exists>db'. processMessage (sampleDb\<lparr>bufferedMessages := [mkMessage 3 (RocketSpeedIncreased 1000)]\<rparr>)
               (mkMessage 2 (RocketSpeedIncreased 500)) = (db', None)
         \<and> messages db' = [mkMessage 2 (RocketSpeedIncreased 500), mkMessage 3 (RocketSpeedIncreased 1000)]
         \<and> bufferedMessages db' = []
         \<and> rocketFindByChannel (rockets db') ''ch1''
             = Some (sampleRocket\<lparr>currentSpeed := 2000, lastMessageNumber := 3, lastMessageTime := 103\<rparr>))"
proof -
  let ?m3 = "mkMessage 3 (RocketSpeedIncreased 1000)" and ?m2 = "mkMessage 2 (RocketSpeedIncreased 500)"
  let ?db = "sampleDb\<lparr>bufferedMessages := [?m3]\<rparr>"
  have i1: "keysDisjoint sampleDb" "bufferedKnown sampleDb"
    by (simp_all add: keysDisjoint_def bufferedKnown_def sample_defs)
  have a1: "rocketFindByChannel (rockets sampleDb) (msgChannel ?m3) = Some sampleRocket"
    and a2: "messageFindUnique (messages sampleDb) (msgChannel ?m3) (messageNumber ?m3) = None"
    and a3: "bufferedFindUnique (bufferedMessages sampleDb) (msgChannel ?m3) (messageNumber ?m3) = None"
    by (simp_all add: sample_defs repo_defs)
  have gap: "messageNumber ?m3 > lastMessageNumber sampleRocket + 1" by (simp add: sample_defs)
  from future_message_buffered_then_drained[OF i1 a1 a2 a3, of "[]"] gap
  have partA: "processMessage sampleDb ?m3 = (sampleDb\<lparr>bufferedMessages := [?m3]\<rparr>, None)"
    by (simp add: sample_defs)
  have i2: "keysDisjoint ?db" "bufferedKnown ?db"
    by (simp_all add: keysDisjoint_def bufferedKnown_def sample_defs knownType_def repo_defs)
  have b1: "rocketFindByChannel (rockets ?db) (msgChannel ?m2) = Some sampleRocket"
    and b2: "messageFindUnique (messages ?db) (msgChannel ?m2) (messageNumber ?m2) = None"
    and b3: "bufferedFindUnique (bufferedMessages ?db) (msgChannel ?m2) (messageNumber ?m2) = None"
    by (simp_all add: sample_defs repo_defs)
  have pre: "messageNumber ?m2 = lastMessageNumber sampleRocket + 1 \<and> knownType ?m2
        \<and> (\<forall>i<length [?m3].
              bufferedFindUnique (bufferedMessages ?db) (msgChannel ?m2) (messageNumber ?m2 + 1 + int i) = Some ([?m3] ! i))
        \<and> bufferedFindUnique (bufferedMessages ?db) (msgChannel ?m2)
              (messageNumber ?m2 + 1 + int (length [?m3])) = None"
    by (simp add: sample_defs repo_defs knownType_def)
  from future_message_buffered_then_drained[OF i2 b1 b2 b3, of "[?m3]"] pre
  obtain db' where d: "processMessage ?db ?m2 = (db', None)"
    "messages db' = messages ?db @ ?m2 # [?m3]"
    "bufferedMessages db' =
        filter (\<lambda>y. \<not> (msgChannel y = msgChannel ?m2 \<and> messageNumber ?m2 + 1 \<le> messageNumber y
            \<and> messageNumber y < messageNumber ?m2 + 1 + int (length [?m3]))) (bufferedMessages ?db)"
    "rocketFindByChannel (rockets db') (msgChannel ?m2)
       = Some (foldl nextRocket (nextRocket sampleRocket ?m2) [?m3])"
    by auto
  have "messages db' = [?m2, ?m3]" using d(2) by (simp add: sample_defs)
  moreover have "bufferedMessages db' = []" using d(3) by (simp add: sample_defs)
  moreover have "rocketFindByChannel (rockets db') ''ch1''
      = Some (sampleRocket\<lparr>currentSpeed := 2000, lastMessageNumber := 3, lastMessageTime := 103\<rparr>)"
    using d(4) by (simp add: sample_defs nextRocket_def)
  ultimately show ?thesis using partA d(1) by blast
qed

text \<open>
  C7. (as the code has it) Whatever message is applied to a stored rocket in status
  \<open>EXPLODED\<close>, its type, mission and status stay; \<open>RocketLaunched\<close>, \<open>RocketSpeedIncreased\<close>,
  \<open>RocketSpeedDecreased\<close> and \<open>RocketMissionChanged\<close> also keep speed, explosion reason and
  \<open>lastMessageNumber\<close>, while a further \<open>RocketExploded\<close> sets the speed to 0, overwrites the
  explosion reason with its own and advances \<open>lastMessageNumber\<close>.
\<close>

theorem exploded_rocket_frozen_except_reason:
  assumes "rocketFindByChannel (rockets db) (msgChannel im) = Some r"
    and "status r = EXPLODED"
    and "applyStateChange db (Some r) im = Inr (db', r')"
  shows "rocketFindByChannel (rockets db') (msgChannel im) = Some r'
    \<and> rocketType r' = rocketType r \<and> mission r' = mission r \<and> status r' = EXPLODED
    \<and> currentSpeed r' = (case message im of RocketExploded reason \<Rightarrow> 0 | _ \<Rightarrow> currentSpeed r)
    \<and> explosionReason r' =
         (case message im of RocketExploded reason \<Rightarrow> Some reason | _ \<Rightarrow> explosionReason r)
    \<and> lastMessageNumber r' =
         (case message im of RocketExploded reason \<Rightarrow> messageNumber im | _ \<Rightarrow> lastMessageNumber r)"
proof -
  have "knownType im"
    using assms(3) by (auto simp: applyStateChange_def knownType_def split: MessagePayload.splits)
  from applyStateChange_existing[OF assms(1) this] assms(3)
  have r': "r' = nextRocket r im" and f: "rocketFindByChannel (rockets db') (msgChannel im) = Some r'"
    by auto
  show ?thesis
    using f assms(2) unfolding r' by (simp add: nextRocket_def split: MessagePayload.splits)
qed

theorem exploded_rocket_frozen_except_reason_witness:
  "rocketFindByChannel (rockets explodedDb) (msgChannel (mkMessage 6 (RocketMissionChanged ''SHUTTLE_MIR''))) = Some explodedRocket
   \<and> status explodedRocket = EXPLODED
   \<and> applyStateChange explodedDb (Some explodedRocket) (mkMessage 6 (RocketMissionChanged ''SHUTTLE_MIR''))
        = Inr (explodedDb, explodedRocket)
   \<and> rocketFindByChannel (rockets explodedDb) (msgChannel (mkMessage 6 (RocketMissionChanged ''SHUTTLE_MIR''))) = Some explodedRocket
   \<and> explosionReason explodedRocket =
         (case message (mkMessage 6 (RocketMissionChanged ''SHUTTLE_MIR'')) of
            RocketExploded reason \<Rightarrow> Some reason | _ \<Rightarrow> explosionReason explodedRocket)"
proof -
  let ?m = "mkMessage 6 (RocketMissionChanged ''SHUTTLE_MIR'')"
  have h1: "rocketFindByChannel (rockets explodedDb) (msgChannel ?m) = Some explodedRocket"
    by (simp add: sample_defs rocketFindByChannel_def)
  have h2: "status explodedRocket = EXPLODED" by (simp add: sample_defs)
  have h3: "applyStateChange explodedDb (Some explodedRocket) ?m = Inr (explodedDb, explodedRocket)"
    by (simp add: applyStateChange_def ensureRocket_def sample_defs)
  show ?thesis
    using h1 h2 h3 exploded_rocket_frozen_except_reason[OF h1 h2 h3] by simp
qed

text \<open>
  The claim as stated, that a further explosion with another reason changes nothing but
  timestamps, fails: the reason \<open>PRESSURE_VESSEL_FAILURE\<close> becomes \<open>ENGINE_FAILURE\<close>.
\<close>

theorem second_explosion_changes_reason_counterexample:
  "status explodedRocket = EXPLODED
   \<and> explosionReason explodedRocket = Some ''PRESSURE_VESSEL_FAILURE''
   \<and> explosionReason (explodedRocket\<lparr>explosionReason := Some ''ENGINE_FAILURE'',
           lastMessageNumber := 6, lastMessageTime := 106\<rparr>) \<noteq> explosionReason explodedRocket
   \<and> applyStateChange explodedDb (Some explodedRocket) (mkMessage 6 (RocketExploded ''ENGINE_FAILURE''))
       = Inr (\<lparr>rockets = [explodedRocket\<lparr>explosionReason := Some ''ENGINE_FAILURE'',
                   lastMessageNumber := 6, lastMessageTime := 106\<rparr>],
               messages = [], bufferedMessages = []\<rparr>,
              explodedRocket\<lparr>explosionReason := Some ''ENGINE_FAILURE'',
                   lastMessageNumber := 6, lastMessageTime := 106\<rparr>)"
  by (simp add: applyStateChange_def repo_defs sample_defs)

text \<open>
  C8. For a stored rocket in status \<open>ACTIVE\<close> and a \<open>RocketSpeedDecreased by\<close> message with
  \<open>by > 0\<close>, \<open>applyStateChange\<close> succeeds and stores a rocket whose speed is
  \<open>max 0 (currentSpeed - by)\<close>: it is 0 when \<open>by\<close> exceeds the current speed, and never
  negative.
\<close>

theorem decrease_speed_clamped:
  assumes "rocketFindByChannel (rockets db) (msgChannel im) = Some r"
    and "status r = ACTIVE"
    and "message im = RocketSpeedDecreased by" and "0 < by"
  shows "\<exists>db' r'. applyStateChange db (Some r) im = Inr (db', r')
     \<and> rocketFindByChannel (rockets db') (msgChannel im) = Some r'
     \<and> currentSpeed r' = max 0 (currentSpeed r - by)
     \<and> (currentSpeed r < by \<longrightarrow> currentSpeed r' = 0)
     \<and> 0 \<le> currentSpeed r'"
proof -
  let ?d = "noUpdate\<lparr>setCurrentSpeed := Some (max 0 (currentSpeed r - by)),
                                setLastMessageNumber := Some (messageNumber im),
                                setLastMessageTime := Some (messageTime im)\<rparr>"
  from rocketUpdate_result[OF assms(1), of ?d] obtain db' where
    u: "rocketUpdate db (msgChannel im) ?d = Inr (db', applyUpdate ?d r)"
    and f: "rocketFindByChannel (rockets db') (msgChannel im) = Some (applyUpdate ?d r)"
    by auto
  have "applyStateChange db (Some r) im = Inr (db', applyUpdate ?d r)"
    using assms u by (simp add: applyStateChange_def ensureRocket_def)
  moreover have "currentSpeed (applyUpdate ?d r) = max 0 (currentSpeed r - by)"
    by (simp add: applyUpdate_def noUpdate_def)
  ultimately show ?thesis using f by auto
qed

theorem decrease_speed_clamped_witness:
  "rocketFindByChannel (rockets sampleDb) (msgChannel (mkMessage 2 (RocketSpeedDecreased 1000))) = Some sampleRocket
   \<and> status sampleRocket = ACTIVE \<and> (0::int) < 1000
   \<and> (\<exists>db' r'. applyStateChange sampleDb (Some sampleRocket) (mkMessage 2 (RocketSpeedDecreased 1000)) = Inr (db', r')
     \<and> rocketFindByChannel (rockets db') (msgChannel (mkMessage 2 (RocketSpeedDecreased 1000))) = Some r'
     \<and> currentSpeed r' = max 0 (currentSpeed sampleRocket - 1000)
     \<and> (currentSpeed sampleRocket < 1000 \<longrightarrow> currentSpeed r' = 0)
     \<and> 0 \<le> currentSpeed r')"
proof -
  have h1: "rocketFindByChannel (rockets sampleDb) (msgChannel (mkMessage 2 (RocketSpeedDecreased 1000))) = Some sampleRocket"
    by (simp add: sample_defs rocketFindByChannel_def)
  have h2: "status sampleRocket = ACTIVE" by (simp add: sample_defs)
  have h3: "message (mkMessage 2 (RocketSpeedDecreased 1000)) = RocketSpeedDecreased 1000"
    by (simp add: sample_defs)
  show ?thesis
    using h1 h2 decrease_speed_clamped[OF h1 h2 h3] by simp
qed

text \<open>
  C9. When the drain finds a buffered row for the expected number and no rocket for the
  channel, \<open>processBufferedMessages\<close> returns normally, deletes that row and stops: nothing
  else changes, later buffered rows stay, and no row remains for the expected number.
  The drain has no error result (its \<open>catch\<close> swallows every exception), so a submission
  that reaches it returns normally whatever the drain meets
  (\<open>drain_never_fails_submission\<close>).
\<close>

theorem orphaned_buffered_message_deleted:
  assumes "bufferedFindUnique (bufferedMessages db) c n = Some buffered"
    and "rocketFindByChannel (rockets db) c = None"
  shows "processBufferedMessages db c n =
      db\<lparr>bufferedMessages := filter (\<lambda>y. \<not> hasKey c n y) (bufferedMessages db)\<rparr>
    \<and> bufferedFindUnique (bufferedMessages (processBufferedMessages db c n)) c n = None"
proof -
  from assms(1) have k: "msgChannel buffered = c" "messageNumber buffered = n"
    using find_SomeD[of "hasKey c n" "bufferedMessages db" buffered]
    by (auto simp: bufferedFindUnique_def hasKey_def)
  have "processBufferedMessages db c n =
      db\<lparr>bufferedMessages := filter (\<lambda>y. \<not> hasKey c n y) (bufferedMessages db)\<rparr>"
    using assms k by (simp add: processBufferedMessages.simps bufferedDelete_def)
  moreover have "find (hasKey c n) (filter (\<lambda>y. \<not> hasKey c n y) (bufferedMessages db)) = None"
    by (simp add: find_None_iff)
  ultimately show ?thesis by (simp add: bufferedFindUnique_def)
qed

theorem orphaned_buffered_message_deleted_witness:
  "bufferedFindUnique (bufferedMessages (emptyDb\<lparr>bufferedMessages := [mkMessage 3 (RocketSpeedIncreased 10), mkMessage 4 (RocketSpeedIncreased 20)]\<rparr>)) ''ch1'' 3
      = Some (mkMessage 3 (RocketSpeedIncreased 10))
   \<and> rocketFindByChannel (rockets (emptyDb\<lparr>bufferedMessages := [mkMessage 3 (RocketSpeedIncreased 10), mkMessage 4 (RocketSpeedIncreased 20)]\<rparr>)) ''ch1'' = None
   \<and> processBufferedMessages (emptyDb\<lparr>bufferedMessages := [mkMessage 3 (RocketSpeedIncreased 10), mkMessage 4 (RocketSpeedIncreased 20)]\<rparr>) ''ch1'' 3
      = emptyDb\<lparr>bufferedMessages := [mkMessage 4 (RocketSpeedIncreased 20)]\<rparr>"
proof -
  let ?db = "emptyDb\<lparr>bufferedMessages := [mkMessage 3 (RocketSpeedIncreased 10), mkMessage 4 (RocketSpeedIncreased 20)]\<rparr>"
  have h1: "bufferedFindUnique (bufferedMessages ?db) ''ch1'' 3 = Some (mkMessage 3 (RocketSpeedIncreased 10))"
    by (simp add: sample_defs bufferedFindUnique_def hasKey_def)
  have h2: "rocketFindByChannel (rockets ?db) ''ch1'' = None"
    by (simp add: sample_defs rocketFindByChannel_def)
  from orphaned_buffered_message_deleted[OF h1 h2]
  have "processBufferedMessages ?db ''ch1'' 3 =
      ?db\<lparr>bufferedMessages := filter (\<lambda>y. \<not> hasKey ''ch1'' 3 y) (bufferedMessages ?db)\<rparr>"
    by blast
  then have "processBufferedMessages ?db ''ch1'' 3 = emptyDb\<lparr>bufferedMessages := [mkMessage 4 (RocketSpeedIncreased 20)]\<rparr>"
    by (simp add: sample_defs hasKey_def)
  with h1 h2 show ?thesis by blast
qed

text \<open>
  C10. \<open>getRocketStatistics\<close> asks the database for the average \<open>currentSpeed\<close> of the rockets
  in status \<open>ACTIVE\<close> only (rockets in status \<open>EXPLODED\<close> do not enter it) and returns that
  average rounded to the nearest integer (it differs from the average by at most one half),
  and 0 when no rocket is \<open>ACTIVE\<close>. The average is the number the database returns for the
  selected speeds.
\<close>

theorem average_speed_over_active:
  "averageSpeed (getRocketStatistics dbAvg rs) =
     (if filter (\<lambda>r. status r = ACTIVE) rs = [] then 0
      else \<lfloor>dbAvg (map currentSpeed (filter (\<lambda>r. status r = ACTIVE) rs)) + 1 / 2\<rfloor>)
   \<and> averageSpeed (getRocketStatistics dbAvg rs)
       = averageSpeed (getRocketStatistics dbAvg (filter (\<lambda>r. status r = ACTIVE) rs))
   \<and> \<bar>of_int (averageSpeed (getRocketStatistics dbAvg rs)) - getAverageSpeed dbAvg rs (Some ACTIVE)\<bar>
       \<le> 1 / 2"
proof (intro conjI)
  show "averageSpeed (getRocketStatistics dbAvg rs) =
     (if filter (\<lambda>r. status r = ACTIVE) rs = [] then 0
      else \<lfloor>dbAvg (map currentSpeed (filter (\<lambda>r. status r = ACTIVE) rs)) + 1 / 2\<rfloor>)"
    using mathRound_zero by (simp add: getRocketStatistics_def getAverageSpeed_active mathRound_def)
  have "getAverageSpeed dbAvg (filter (\<lambda>r. status r = ACTIVE) rs) (Some ACTIVE)
      = getAverageSpeed dbAvg rs (Some ACTIVE)"
    by (simp add: getAverageSpeed_active)
  then show "averageSpeed (getRocketStatistics dbAvg rs)
       = averageSpeed (getRocketStatistics dbAvg (filter (\<lambda>r. status r = ACTIVE) rs))"
    by (simp add: getRocketStatistics_def)
  show "\<bar>of_int (averageSpeed (getRocketStatistics dbAvg rs)) - getAverageSpeed dbAvg rs (Some ACTIVE)\<bar>
       \<le> 1 / 2"
    using mathRound_nearest by (simp add: getRocketStatistics_def)
qed

theorem average_speed_over_active_witness:
  "averageSpeed (getRocketStatistics exactMean
      [sampleRocket, explodedRocket, sampleRocket\<lparr>currentSpeed := 1001\<rparr>]) = 751
   \<and> averageSpeed (getRocketStatistics exactMean [explodedRocket]) = 0"
proof -
  have a: "filter (\<lambda>r. status r = ACTIVE) [sampleRocket, explodedRocket, sampleRocket\<lparr>currentSpeed := 1001\<rparr>]
      = [sampleRocket, sampleRocket\<lparr>currentSpeed := 1001\<rparr>]"
    by (simp add: sampleRocket_def explodedRocket_def)
  have b: "filter (\<lambda>r. status r = ACTIVE) [explodedRocket] = []"
    by (simp add: sampleRocket_def explodedRocket_def)
  have "averageSpeed (getRocketStatistics exactMean
      [sampleRocket, explodedRocket, sampleRocket\<lparr>currentSpeed := 1001\<rparr>]) = 751"
    using average_speed_over_active[of exactMean
        "[sampleRocket, explodedRocket, sampleRocket\<lparr>currentSpeed := 1001\<rparr>]"]
    unfolding a by (simp add: sampleRocket_def exactMean_def)
  moreover have "averageSpeed (getRocketStatistics exactMean [explodedRocket]) = 0"
    using average_speed_over_active[of exactMean "[explodedRocket]"] unfolding b by simp
  ultimately show ?thesis by simp
qed

end
